theory Spec2Isabelle
  imports Main "HOL-Library.Sublist"
begin

section \<open>Python strings\<close>

text \<open>
  The three scrapers (\<^verbatim>\<open>yp_5_janitor.py\<close>, \<^verbatim>\<open>yp_6_safety.py\<close>,
  \<^verbatim>\<open>yp_b2b_warehouse_scraper.py\<close>) work on Python \<^verbatim>\<open>str\<close> values. A string is
  modelled as a \<^typ>\<open>string\<close> of ASCII characters. Python's \<^verbatim>\<open>x in s\<close> on strings is
  \<^term>\<open>sublist x s\<close> (a contiguous occurrence), \<^verbatim>\<open>not s\<close> is \<^term>\<open>s = []\<close>.
  \<^verbatim>\<open>s.lower()\<close> maps \<^verbatim>\<open>A\<close>..\<^verbatim>\<open>Z\<close> to \<^verbatim>\<open>a\<close>..\<^verbatim>\<open>z\<close>; \<^verbatim>\<open>s.strip()\<close> removes the
  leading and trailing characters for which \<^verbatim>\<open>str.isspace\<close> holds (in ASCII: space,
  \<^verbatim>\<open>\t \n \v \f \r\<close> and the separators 0x1C..0x1F).
\<close>

definition is_space :: "char \<Rightarrow> bool" where
  "is_space c = (c \<in> set [CHR '' '', CHR 0x09, CHR 0x0A, CHR 0x0B, CHR 0x0C, CHR 0x0D,
                          CHR 0x1C, CHR 0x1D, CHR 0x1E, CHR 0x1F])"

definition lower_char :: "char \<Rightarrow> char" where
  "lower_char c =
     (case map_of (zip ''ABCDEFGHIJKLMNOPQRSTUVWXYZ'' ''abcdefghijklmnopqrstuvwxyz'') c of
        Some d \<Rightarrow> d
      | None \<Rightarrow> c)"

definition lower :: "string \<Rightarrow> string" where
  "lower s = map lower_char s"

definition lstrip :: "string \<Rightarrow> string" where
  "lstrip s = dropWhile is_space s"

definition rstrip :: "string \<Rightarrow> string" where
  "rstrip s = rev (dropWhile is_space (rev s))"

definition strip :: "string \<Rightarrow> string" where
  "strip s = rstrip (lstrip s)"

section \<open>Website filter\<close>

text \<open>
  \<^verbatim>\<open>INVALID_WEBSITE_PATTERNS\<close> of \<^verbatim>\<open>yp_5_janitor.py\<close>; \<^verbatim>\<open>yp_6_safety.py\<close> has the same
  list as the local \<^verbatim>\<open>invalid_patterns\<close>.
\<close>

definition INVALID_WEBSITE_PATTERNS :: "string list" where
  "INVALID_WEBSITE_PATTERNS =
     [''localsearch.com'', ''yellowpages.com'', ''yp.com'', ''superpages.com'',
      ''whitepages.com'', ''manta.com'', ''yelp.com'']"

text \<open>
  \<^verbatim>\<open>yp_5_janitor.py\<close>:
  \<^verbatim>\<open>
  def is_valid_website(url):
      if not url or not url.strip() or url == "N/A":
          return False
      url_lower = url.lower().strip()
      return not any(pattern in url_lower for pattern in INVALID_WEBSITE_PATTERNS)
  \<close>
\<close>

definition janitor_is_valid_website :: "string \<Rightarrow> bool" where
  "janitor_is_valid_website url =
     (if url = [] \<or> strip url = [] \<or> url = ''N/A'' then False
      else \<not> list_ex (\<lambda>pattern. sublist pattern (strip (lower url))) INVALID_WEBSITE_PATTERNS)"

text \<open>
  \<^verbatim>\<open>yp_6_safety.py\<close>:
  \<^verbatim>\<open>
  def is_valid_website(url):
      if not url or not url.strip():
          return False
      url_lower = url.lower().strip()
      invalid_patterns = [...]
      return not any(pattern in url_lower for pattern in invalid_patterns)
  \<close>
\<close>

definition safety_is_valid_website :: "string \<Rightarrow> bool" where
  "safety_is_valid_website url =
     (if url = [] \<or> strip url = [] then False
      else \<not> list_ex (\<lambda>pattern. sublist pattern (strip (lower url))) INVALID_WEBSITE_PATTERNS)"

section \<open>Identity scheme\<close>

text \<open>
  Python values that reach the identity function. The scrapers call it with strings from
  the parser and with cells of a spreadsheet read back by pandas, where an empty cell is
  the float \<^verbatim>\<open>nan\<close>. \<^verbatim>\<open>str(v)\<close> is \<^term>\<open>py_str v\<close>; a method of \<^verbatim>\<open>str\<close> called on
  a value that is not a string raises \<^verbatim>\<open>AttributeError\<close>, and subscripting a tag
  with an attribute it does not have raises \<^verbatim>\<open>KeyError\<close>.
\<close>

datatype pyval = Str string | NoneVal | NaN

datatype py_error = AttributeError | KeyError

fun py_str :: "pyval \<Rightarrow> string" where
  "py_str (Str s) = s"
| "py_str NoneVal = ''None''"
| "py_str NaN = ''nan''"

text \<open>
  \<^verbatim>\<open>hashlib.md5(key.encode()).hexdigest()\<close> is a library function: it is the parameter
  \<open>md5\<close> of everything that computes an identity. \<^verbatim>\<open>s[:12]\<close> is \<^term>\<open>take 12 s\<close>.

  \<^verbatim>\<open>yp_5_janitor.py\<close> (and \<^verbatim>\<open>gen_id\<close> of \<^verbatim>\<open>yp_6_safety.py\<close>, the same expression):
  \<^verbatim>\<open>
  def generate_lead_id(company_name, phone):
      key = f"{str(company_name).lower().strip()}|{str(phone).strip()}"
      return hashlib.md5(key.encode()).hexdigest()[:12]
  \<close>
\<close>

definition janitor_generate_lead_id :: "(string \<Rightarrow> string) \<Rightarrow> pyval \<Rightarrow> pyval \<Rightarrow> string" where
  "janitor_generate_lead_id md5 company_name phone =
     take 12 (md5 (strip (lower (py_str company_name)) @ ''|'' @ strip (py_str phone)))"

definition gen_id :: "(string \<Rightarrow> string) \<Rightarrow> pyval \<Rightarrow> pyval \<Rightarrow> string" where
  "gen_id md5 name phone =
     take 12 (md5 (strip (lower (py_str name)) @ ''|'' @ strip (py_str phone)))"

text \<open>
  \<^verbatim>\<open>yp_b2b_warehouse_scraper.py\<close>:
  \<^verbatim>\<open>
  def generate_lead_id(company_name, phone):
      key = f"{company_name.lower().strip()}|{phone.strip()}"
      return hashlib.md5(key.encode()).hexdigest()[:12]
  \<close>
\<close>

fun b2b_generate_lead_id :: "(string \<Rightarrow> string) \<Rightarrow> pyval \<Rightarrow> pyval \<Rightarrow> py_error + string" where
  "b2b_generate_lead_id md5 (Str company_name) (Str phone) =
     Inr (take 12 (md5 (strip (lower company_name) @ ''|'' @ strip phone)))"
| "b2b_generate_lead_id md5 company_name phone = Inl AttributeError"

text \<open>The identity as the specification words it: the digest of
  \<^verbatim>\<open>lowercase(trim(name)) + "|" + trim(phone)\<close>, cut to 12 characters.\<close>

definition spec_identity :: "(string \<Rightarrow> string) \<Rightarrow> string \<Rightarrow> string \<Rightarrow> string" where
  "spec_identity md5 name phone = take 12 (md5 (lower (strip name) @ ''|'' @ strip phone))"

section \<open>Listing parser\<close>

text \<open>
  A result fragment is seen by \<^verbatim>\<open>parse_listing\<close> only through \<^verbatim>\<open>select_one\<close>: the
  fragment is the record of what each selector finds (\<^term>\<open>None\<close> when nothing matches).
  Of a tag the parser reads \<^verbatim>\<open>.text\<close> and the \<^verbatim>\<open>href\<close> attribute.
\<close>

record element =
  text_of :: string
  href :: "string option"

record listing =
  business_name_span :: "element option"
  business_name :: "element option"
  track_visit_website :: "element option"
  phones :: "element option"
  street_address :: "element option"
  locality :: "element option"
  categories :: "element option"

text \<open>
  A lead is the dictionary that \<^verbatim>\<open>parse_listing\<close> returns. The record has the keys the
  pipeline reads or writes afterwards; \<open>Label\<close> is the key \<^verbatim>\<open>"Niche"\<close> (\<^verbatim>\<open>"Industry"\<close> in
  the B2B file), \<open>lead_id\<close> is \<^verbatim>\<open>"_lead_id"\<close> (\<^verbatim>\<open>"_id"\<close> in the safety file). The keys that
  are filled with a constant and never read (\<^verbatim>\<open>"#"\<close>, \<^verbatim>\<open>"Has Website"\<close>,
  \<^verbatim>\<open>"Contact Name"\<close>, \<^verbatim>\<open>"Date Contacted"\<close>, \<^verbatim>\<open>"Notes"\<close>, \<^verbatim>\<open>"Status"\<close>, \<^verbatim>\<open>"Called"\<close>,
  \<^verbatim>\<open>"Followed Up"\<close>, \<^verbatim>\<open>"Closed"\<close>) are left out.
\<close>

record lead =
  Company_Name :: string
  Label :: string
  Category :: string
  Email_Address :: string
  Phone_Number :: string
  Website_URL :: string
  Address :: string
  Date_Added :: string
  Source :: string
  lead_id :: string

definition text_or_empty :: "element option \<Rightarrow> string" where
  "text_or_empty el = (case el of None \<Rightarrow> [] | Some e \<Rightarrow> strip (text_of e))"

text \<open>\<^verbatim>\<open>name_el = select_one(".business-name span"); if not name_el: name_el =
  select_one(".business-name")\<close>: a tag is always true.\<close>

definition name_el :: "listing \<Rightarrow> element option" where
  "name_el l = (case business_name_span l of Some e \<Rightarrow> Some e | None \<Rightarrow> business_name l)"

text \<open>\<^verbatim>\<open>website = website_el["href"] if website_el else ""\<close>: the subscript raises when
  the tag has no \<^verbatim>\<open>href\<close>.\<close>

definition website_of :: "listing \<Rightarrow> py_error + string" where
  "website_of l =
     (case track_visit_website l of
        None \<Rightarrow> Inr []
      | Some e \<Rightarrow> (case href e of None \<Rightarrow> Inl KeyError | Some h \<Rightarrow> Inr h))"

text \<open>\<^verbatim>\<open>" ".join(filter(None, [street, locality]))\<close>.\<close>

definition address_of :: "listing \<Rightarrow> string" where
  "address_of l =
     (let street = text_or_empty (street_address l); loc = text_or_empty (locality l)
      in if street = [] then loc else if loc = [] then street else street @ '' '' @ loc)"

text \<open>\<^verbatim>\<open>if detail_el and detail_el.get("href"): detail_link =
  "https://www.yellowpages.com" + detail_el["href"]\<close>.\<close>

definition detail_link_of :: "listing \<Rightarrow> string" where
  "detail_link_of l =
     (case business_name l of
        None \<Rightarrow> []
      | Some e \<Rightarrow> (case href e of
                    None \<Rightarrow> []
                  | Some h \<Rightarrow> if h = [] then [] else ''https://www.yellowpages.com'' @ h))"

definition make_lead :: "string \<Rightarrow> string \<Rightarrow> string \<Rightarrow> listing \<Rightarrow> string \<Rightarrow> string \<Rightarrow> lead" where
  "make_lead i lbl today l company website =
     \<lparr>Company_Name = company, Label = lbl, Category = text_or_empty (categories l),
      Email_Address = [], Phone_Number = text_or_empty (phones l), Website_URL = website,
      Address = address_of l, Date_Added = today, Source = detail_link_of l,
      lead_id = i\<rparr>"

text \<open>
  \<^verbatim>\<open>parse_listing\<close> of \<^verbatim>\<open>yp_5_janitor.py\<close>. The whole body is inside
  \<^verbatim>\<open>try: ... except Exception: return None\<close>, so the \<^verbatim>\<open>KeyError\<close> of the subscript
  is a \<^term>\<open>None\<close> result. \<open>today\<close> is \<^verbatim>\<open>datetime.now().strftime("%m/%d/%y")\<close>.
  \<^verbatim>\<open>
      company = name_el.text.strip() if name_el else ""
      if not company: return None
      website_el = listing.select_one(".track-visit-website")
      website = website_el["href"] if website_el else ""
      if not is_valid_website(website): return None
      ...
      return {...}
  \<close>
\<close>

definition janitor_parse_listing :: "(string \<Rightarrow> string) \<Rightarrow> string \<Rightarrow> listing \<Rightarrow> lead option" where
  "janitor_parse_listing md5 today l =
     (let company = text_or_empty (name_el l) in
      if company = [] then None
      else case website_of l of
             Inl e \<Rightarrow> None
           | Inr website \<Rightarrow>
               if \<not> janitor_is_valid_website website then None
               else Some (make_lead
                            (janitor_generate_lead_id md5 (Str company) (Str (text_or_empty (phones l))))
                            ''Janitorial/Cleaning Supplier'' today l company website))"

text \<open>\<^verbatim>\<open>parse_listing\<close> of \<^verbatim>\<open>yp_6_safety.py\<close>: the same steps with the safety file's
  filter, label and \<^verbatim>\<open>gen_id\<close>.\<close>

definition safety_parse_listing :: "(string \<Rightarrow> string) \<Rightarrow> string \<Rightarrow> listing \<Rightarrow> lead option" where
  "safety_parse_listing md5 today l =
     (let name = text_or_empty (name_el l) in
      if name = [] then None
      else case website_of l of
             Inl e \<Rightarrow> None
           | Inr web \<Rightarrow>
               if \<not> safety_is_valid_website web then None
               else Some (make_lead (gen_id md5 (Str name) (Str (text_or_empty (phones l))))
                            ''Industrial Safety Supplier'' today l name web))"

text \<open>
  \<^verbatim>\<open>parse_listing(listing, industry_label)\<close> of \<^verbatim>\<open>yp_b2b_warehouse_scraper.py\<close>. The file
  has no website filter: after the test of the company name the website is read (the
  subscript can raise as above) and the lead is returned. The identity is computed from
  two strings, where \<^verbatim>\<open>generate_lead_id\<close> of this file does not raise.
  \<^verbatim>\<open>
      company = name_el.text.strip() if name_el else ""
      if not company: return None
      ...
      website_el = listing.select_one(".track-visit-website")
      website = website_el["href"] if website_el else ""
      ...
      return {...}
  \<close>
\<close>

definition b2b_parse_listing :: "(string \<Rightarrow> string) \<Rightarrow> string \<Rightarrow> string \<Rightarrow> listing \<Rightarrow> lead option" where
  "b2b_parse_listing md5 industry_label today l =
     (let company = text_or_empty (name_el l) in
      if company = [] then None
      else case website_of l of
             Inl e \<Rightarrow> None
           | Inr website \<Rightarrow>
               (case b2b_generate_lead_id md5 (Str company) (Str (text_or_empty (phones l))) of
                  Inl e \<Rightarrow> None
                | Inr i \<Rightarrow> Some (make_lead i industry_label today l company website)))"

section \<open>Email validator and the two regular expressions\<close>

definition JANITOR_EMAIL_BLACKLIST :: "string list" where
  "JANITOR_EMAIL_BLACKLIST =
     [''example.com'', ''domain.com'', ''email.com'', ''yoursite'', ''yourdomain'',
      ''sentry.io'', ''schema.org'', ''json'', ''wixpress'', ''wix.com'',
      ''googleapis'', ''google.com'', ''facebook'', ''twitter'', ''instagram'',
      ''.png'', ''.jpg'', ''.gif'', ''.svg'', ''.css'', ''.js'',
      ''yellowpages'', ''yp.com'', ''placeholder'', ''test.com'',
      ''wordpress'', ''squarespace'', ''shopify'', ''godaddy'', ''wufoo'']"

definition B2B_EMAIL_BLACKLIST :: "string list" where
  "B2B_EMAIL_BLACKLIST =
     [''example.com'', ''domain.com'', ''email.com'', ''yoursite'', ''yourdomain'',
      ''sentry.io'', ''schema.org'', ''json'', ''wixpress'', ''wix.com'',
      ''googleapis'', ''google.com'', ''facebook'', ''twitter'', ''instagram'',
      ''.png'', ''.jpg'', ''.gif'', ''.svg'', ''.css'', ''.js'',
      ''yellowpages'', ''yp.com'', ''placeholder'', ''test.com'',
      ''wordpress'', ''squarespace'', ''shopify'', ''godaddy'']"

definition SAFETY_EMAIL_BLACKLIST :: "string list" where
  "SAFETY_EMAIL_BLACKLIST =
     [''example.com'', ''domain.com'', ''sentry.io'', ''schema.org'', ''wixpress'',
      ''googleapis'', ''yellowpages'', ''.png'', ''.jpg'', ''.css'', ''.js'']"

text \<open>
  \<^verbatim>\<open>
  def is_valid_email(email):
      if not email or '@' not in email:
          return False
      email_lower = email.lower()
      return not any(x in email_lower for x in EMAIL_BLACKLIST)
  \<close>
  The janitor and the B2B file differ in the list only; \<^verbatim>\<open>valid_email\<close> of the safety
  file is \<^verbatim>\<open>e and '@' in e and not any(x in e.lower() for x in EMAIL_BLACKLIST)\<close>.
\<close>

definition email_ok :: "string list \<Rightarrow> string \<Rightarrow> bool" where
  "email_ok blacklist email =
     (if email = [] then False
      else if CHR ''@'' \<in> set email
           then \<not> list_ex (\<lambda>x. sublist x (lower email)) blacklist
           else False)"

definition janitor_is_valid_email :: "string \<Rightarrow> bool" where
  "janitor_is_valid_email = email_ok JANITOR_EMAIL_BLACKLIST"

definition b2b_is_valid_email :: "string \<Rightarrow> bool" where
  "b2b_is_valid_email = email_ok B2B_EMAIL_BLACKLIST"

definition valid_email :: "string \<Rightarrow> bool" where
  "valid_email = email_ok SAFETY_EMAIL_BLACKLIST"

text \<open>
  \<^verbatim>\<open>re.search(r'href=["\']mailto:([^"\'<>?\s]+)', src, re.IGNORECASE)\<close>, as the group 1 of
  the leftmost match: \<^verbatim>\<open>href=\<close> in any case, a quote, \<^verbatim>\<open>mailto:\<close> in any case, then the
  longest non-empty run of characters that are no quote, angle bracket, question mark or
  whitespace.
\<close>

definition mailto_excluded :: "char \<Rightarrow> bool" where
  "mailto_excluded c = (c \<in> set [CHR 0x22, CHR 0x27, CHR ''<'', CHR ''>'', CHR ''?''] \<or> is_space c)"

fun mailto_search :: "string \<Rightarrow> string option" where
  "mailto_search [] = None"
| "mailto_search (c # cs) =
     (let g = takeWhile (\<lambda>x. \<not> mailto_excluded x) (drop 12 cs) in
      if lower (take 5 (c # cs)) = ''href='' \<and>
         (take 1 (drop 4 cs) = [CHR 0x22] \<or> take 1 (drop 4 cs) = [CHR 0x27]) \<and>
         lower (take 7 (drop 5 cs)) = ''mailto:'' \<and> g \<noteq> []
      then Some g
      else mailto_search cs)"

text \<open>
  \<^verbatim>\<open>re.findall(r'[a-zA-Z0-9._%+-]+@[a-zA-Z0-9.-]+\.[a-zA-Z]{2,}', src)\<close>: the
  non-overlapping matches from left to right. At a position the local part is the longest
  run of its class (the next character must be \<^verbatim>\<open>@\<close>, which is outside the class, so no
  shorter run can match); the domain is the longest prefix of the run of domain characters
  that is followed by a dot and two or more letters, and the match ends with the longest
  run of letters there.
\<close>

definition is_alpha :: "char \<Rightarrow> bool" where
  "is_alpha c = (c \<in> set ''abcdefghijklmnopqrstuvwxyzABCDEFGHIJKLMNOPQRSTUVWXYZ'')"

definition is_digit :: "char \<Rightarrow> bool" where
  "is_digit c = (c \<in> set ''0123456789'')"

definition local_char :: "char \<Rightarrow> bool" where
  "local_char c = (is_alpha c \<or> is_digit c \<or> c \<in> set ''._%+-'')"

definition domain_char :: "char \<Rightarrow> bool" where
  "domain_char c = (is_alpha c \<or> is_digit c \<or> c \<in> set ''.-'')"

fun domain_scan :: "string \<Rightarrow> string \<Rightarrow> string option" where
  "domain_scan d [] = None"
| "domain_scan d (c # cs) =
     (case domain_scan (d @ [c]) cs of
        Some m \<Rightarrow> Some m
      | None \<Rightarrow>
          if c = CHR ''.'' \<and> d \<noteq> [] \<and> 2 \<le> length (takeWhile is_alpha cs)
          then Some (d @ [c] @ takeWhile is_alpha cs)
          else None)"

definition email_match_at :: "string \<Rightarrow> string option" where
  "email_match_at s =
     (let l = takeWhile local_char s; rest = dropWhile local_char s in
      if l = [] then None
      else case rest of
             [] \<Rightarrow> None
           | c # cs \<Rightarrow>
               if c = CHR ''@''
               then map_option (\<lambda>m. l @ [c] @ m) (domain_scan [] (takeWhile domain_char cs))
               else None)"

fun findall_from :: "nat \<Rightarrow> string \<Rightarrow> string list" where
  "findall_from k [] = []"
| "findall_from (Suc k) (c # cs) = findall_from k cs"
| "findall_from 0 (c # cs) =
     (case email_match_at (c # cs) of
        Some m \<Rightarrow> m # findall_from (length m - 1) cs
      | None \<Rightarrow> findall_from 0 cs)"

definition email_findall :: "string \<Rightarrow> string list" where
  "email_findall src = findall_from 0 src"

section \<open>Email extraction: janitor and B2B\<close>

text \<open>
  What the browser returns is the input of the extraction. A fetched page is its
  \<^verbatim>\<open>driver.page_source\<close> and \<^verbatim>\<open>driver.title\<close>; \<open>site\<close> answers \<^verbatim>\<open>driver.get(url)\<close> for the
  company website and its contact pages, with \<^term>\<open>None\<close> when the call raises.
  For the detail page of one listing, \<^typ>\<open>'a option\<close> fields are \<^term>\<open>None\<close> when the
  driver call raises. \<open>email_elements\<close> and \<open>mailto_links\<close> hold, for the elements found by
  the two selectors, \<^verbatim>\<open>el.get_attribute("href") or ""\<close> (a call that raises in the middle
  of the list has the effect of the list cut there, since a valid candidate before it has
  been returned already); \<open>soup_links\<close> holds the \<^verbatim>\<open>href\<close> of the anchors that
  BeautifulSoup finds in the page source. The sleeps, the prints and the debug dump
  (\<^verbatim>\<open>DEBUG = False\<close>) are left out.
\<close>

record web_page =
  page_source :: string
  title :: string

record detail_world =
  detail_get_ok :: bool
  source_loaded :: string
  source_scrolled :: "string option"
  email_elements :: "string list option"
  mailto_links :: "string list option"
  soup_links :: "string list"
  site :: "string \<Rightarrow> web_page option"

definition BLOCKED :: string where
  "BLOCKED = ''__BLOCKED__''"

text \<open>Methods 1 and 2 of \<^verbatim>\<open>extract_email_from_website\<close>, also run on each contact page:
  \<^verbatim>\<open>
  mailto_match = re.search(...)
  if mailto_match:
      email = mailto_match.group(1).strip()
      if is_valid_email(email): return email
  email_matches = re.findall(...)
  for email in email_matches:
      if is_valid_email(email): return email
  \<close>\<close>

definition source_scan :: "(string \<Rightarrow> bool) \<Rightarrow> string \<Rightarrow> string option" where
  "source_scan valid src =
     (case mailto_search src of
        Some g \<Rightarrow> if valid (strip g) then Some (strip g) else find valid (email_findall src)
      | None \<Rightarrow> find valid (email_findall src))"

fun contact_pages :: "(string \<Rightarrow> string option) \<Rightarrow> (string \<Rightarrow> web_page option) \<Rightarrow> string \<Rightarrow> string list \<Rightarrow> string" where
  "contact_pages scan st base_url [] = []"
| "contact_pages scan st base_url (path # paths) =
     (case st (base_url @ path) of
        None \<Rightarrow> contact_pages scan st base_url paths
      | Some pg \<Rightarrow>
          (case scan (page_source pg) of
             Some email \<Rightarrow> email
           | None \<Rightarrow> contact_pages scan st base_url paths))"

definition rstrip_slash :: "string \<Rightarrow> string" where
  "rstrip_slash s = rev (dropWhile (\<lambda>c. c = CHR ''/'') (rev s))"

definition with_scheme :: "string \<Rightarrow> string" where
  "with_scheme url = (if prefix ''http'' url then url else ''https://'' @ url)"

text \<open>
  The body of \<^verbatim>\<open>extract_email_from_website\<close> after its guard, the same in the janitor and
  the B2B file (up to the validator): load the site (\<^verbatim>\<open>return ""\<close> when the load raises),
  give up on an error title, scan the page, then the contact pages in order.
\<close>

definition website_cascade :: "(string \<Rightarrow> bool) \<Rightarrow> (string \<Rightarrow> web_page option) \<Rightarrow> string \<Rightarrow> string" where
  "website_cascade valid st website_url =
     (case st (with_scheme website_url) of
        None \<Rightarrow> []
      | Some pg \<Rightarrow>
          if list_ex (\<lambda>x. sublist x (lower (title pg))) [''404'', ''not found'', ''error'', ''denied'']
          then []
          else case source_scan valid (page_source pg) of
                 Some email \<Rightarrow> email
               | None \<Rightarrow> contact_pages (source_scan valid) st (rstrip_slash (with_scheme website_url))
                           [''/contact'', ''/contact-us'', ''/about'', ''/about-us'', ''/contactus''])"

text \<open>\<^verbatim>\<open>yp_5_janitor.py\<close>: \<^verbatim>\<open>if not website_url or not is_valid_website(website_url): return ""\<close>.\<close>

definition janitor_extract_email_from_website :: "(string \<Rightarrow> web_page option) \<Rightarrow> string \<Rightarrow> string" where
  "janitor_extract_email_from_website st website_url =
     (if website_url = [] then []
      else if janitor_is_valid_website website_url
           then website_cascade janitor_is_valid_email st website_url
           else [])"

text \<open>\<^verbatim>\<open>yp_b2b_warehouse_scraper.py\<close>: \<^verbatim>\<open>if not website_url or website_url == "N/A": return ""\<close>.\<close>

definition b2b_extract_email_from_website :: "(string \<Rightarrow> web_page option) \<Rightarrow> string \<Rightarrow> string" where
  "b2b_extract_email_from_website st website_url =
     (if website_url = [] \<or> website_url = ''N/A'' then []
      else website_cascade b2b_is_valid_email st website_url)"

text \<open>\<^verbatim>\<open>href.replace("mailto:", "").split("?")[0].strip()\<close>.\<close>

fun remove_mailto :: "string \<Rightarrow> string" where
  "remove_mailto [] = []"
| "remove_mailto (c # cs) =
     (if take 7 (c # cs) = ''mailto:'' then remove_mailto (drop 6 cs) else c # remove_mailto cs)"

definition href_email :: "string \<Rightarrow> string" where
  "href_email h = strip (takeWhile (\<lambda>c. c \<noteq> CHR ''?'') (remove_mailto h))"

text \<open>Methods 2, 3 and 4 of \<^verbatim>\<open>extract_email_from_detail\<close>:
  \<^verbatim>\<open>
  for el in ...:
      href = ...
      if "mailto:" in href:
          email = href.replace("mailto:", "").split("?")[0].strip()
          if is_valid_email(email): return email
  \<close>\<close>

fun link_scan :: "(string \<Rightarrow> bool) \<Rightarrow> string list \<Rightarrow> string option" where
  "link_scan valid [] = None"
| "link_scan valid (h # hs) =
     (if sublist ''mailto:'' h \<and> valid (href_email h) then Some (href_email h)
      else link_scan valid hs)"

definition is_blocked :: "string \<Rightarrow> bool" where
  "is_blocked src =
     (sublist ''you have been blocked'' (lower src) \<or>
      (sublist ''cloudflare'' (lower src) \<and> sublist ''ray id'' (lower src)))"

text \<open>The part of \<^verbatim>\<open>extract_email_from_detail\<close> after the block test: Methods 1 to 5 on the
  page source read after the scroll, \<^term>\<open>None\<close> when none of them returns.\<close>

definition detail_methods :: "(string \<Rightarrow> bool) \<Rightarrow> detail_world \<Rightarrow> string \<Rightarrow> string option" where
  "detail_methods valid dw src =
     (case (case mailto_search src of
              Some g \<Rightarrow> if valid (strip g) then Some (strip g) else None
            | None \<Rightarrow> None) of
        Some email \<Rightarrow> Some email
      | None \<Rightarrow>
     (case (case email_elements dw of Some hs \<Rightarrow> link_scan valid hs | None \<Rightarrow> None) of
        Some email \<Rightarrow> Some email
      | None \<Rightarrow>
     (case (case mailto_links dw of Some hs \<Rightarrow> link_scan valid hs | None \<Rightarrow> None) of
        Some email \<Rightarrow> Some email
      | None \<Rightarrow>
     (case link_scan valid (soup_links dw) of
        Some email \<Rightarrow> Some email
      | None \<Rightarrow> find valid (email_findall src)))))"

text \<open>
  \<^verbatim>\<open>extract_email_from_detail\<close> of \<^verbatim>\<open>yp_5_janitor.py\<close>. The body is inside
  \<^verbatim>\<open>try: ... except Exception: pass\<close> followed by \<^verbatim>\<open>return ""\<close>.
  \<^verbatim>\<open>
      if is_blocked:
          if website_url and is_valid_website(website_url):
              email = extract_email_from_website(driver, website_url)
              if email: return email
          return "__BLOCKED__"
      ... Methods 1-5 ...
      if website_url and is_valid_website(website_url):
          email = extract_email_from_website(driver, website_url)
          if email: return email
  \<close>
\<close>

definition janitor_extract_email_from_detail :: "detail_world \<Rightarrow> string \<Rightarrow> string" where
  "janitor_extract_email_from_detail dw website_url =
     (if \<not> detail_get_ok dw then []
      else if is_blocked (source_loaded dw)
      then (if website_url \<noteq> [] \<and> janitor_is_valid_website website_url
            then (let email = janitor_extract_email_from_website (site dw) website_url
                  in if email \<noteq> [] then email else BLOCKED)
            else BLOCKED)
      else case source_scrolled dw of
             None \<Rightarrow> []
           | Some src \<Rightarrow>
               (case detail_methods janitor_is_valid_email dw src of
                  Some email \<Rightarrow> email
                | None \<Rightarrow>
                    if website_url \<noteq> [] \<and> janitor_is_valid_website website_url
                    then janitor_extract_email_from_website (site dw) website_url
                    else []))"

text \<open>\<^verbatim>\<open>extract_email_from_detail\<close> of \<^verbatim>\<open>yp_b2b_warehouse_scraper.py\<close>: the two tests of the
  website are \<^verbatim>\<open>if website_url:\<close>.\<close>

definition b2b_extract_email_from_detail :: "detail_world \<Rightarrow> string \<Rightarrow> string" where
  "b2b_extract_email_from_detail dw website_url =
     (if \<not> detail_get_ok dw then []
      else if is_blocked (source_loaded dw)
      then (if website_url \<noteq> []
            then (let email = b2b_extract_email_from_website (site dw) website_url
                  in if email \<noteq> [] then email else BLOCKED)
            else BLOCKED)
      else case source_scrolled dw of
             None \<Rightarrow> []
           | Some src \<Rightarrow>
               (case detail_methods b2b_is_valid_email dw src of
                  Some email \<Rightarrow> email
                | None \<Rightarrow>
                    if website_url \<noteq> []
                    then b2b_extract_email_from_website (site dw) website_url
                    else []))"

section \<open>Email extraction: safety\<close>

text \<open>
  \<^verbatim>\<open>
  m = re.search(...)
  if m and valid_email(m.group(1)): return m.group(1).strip()
  for e in re.findall(...):
      if valid_email(e): return e
  \<close>
  The candidate is validated before \<^verbatim>\<open>strip\<close> and returned after it.
\<close>

definition safety_scan :: "string \<Rightarrow> string option" where
  "safety_scan src =
     (case mailto_search src of
        Some g \<Rightarrow> if valid_email g then Some (strip g) else find valid_email (email_findall src)
      | None \<Rightarrow> find valid_email (email_findall src))"

text \<open>\<^verbatim>\<open>get_email_from_site\<close> of \<^verbatim>\<open>yp_6_safety.py\<close>: no title test, three contact paths.\<close>

definition get_email_from_site :: "(string \<Rightarrow> web_page option) \<Rightarrow> string \<Rightarrow> string" where
  "get_email_from_site st url =
     (if url = [] then []
      else if safety_is_valid_website url
      then (case st (with_scheme url) of
              None \<Rightarrow> []
            | Some pg \<Rightarrow>
                (case safety_scan (page_source pg) of
                   Some e \<Rightarrow> e
                 | None \<Rightarrow> contact_pages safety_scan st (rstrip_slash (with_scheme url))
                             [''/contact'', ''/contact-us'', ''/about'']))
      else [])"

text \<open>
  \<^verbatim>\<open>get_email\<close> of \<^verbatim>\<open>yp_6_safety.py\<close>:
  \<^verbatim>\<open>
      driver.get(detail_url); time.sleep(2); src = driver.page_source
      if "blocked" in src.lower() or ("cloudflare" in src.lower() and "ray id" in src.lower()):
          if website and is_valid_website(website): return get_email_from_site(driver, website)
          return "__BLOCKED__"
      driver.execute_script("window.scrollTo(0,800)"); time.sleep(1); src = driver.page_source
      m = re.search(...)
      if m and valid_email(m.group(1)): return m.group(1).strip()
      for e in re.findall(...):
          if valid_email(e): return e
      if website and is_valid_website(website): return get_email_from_site(driver, website)
  \<close>
\<close>

definition safety_is_blocked :: "string \<Rightarrow> bool" where
  "safety_is_blocked src =
     (sublist ''blocked'' (lower src) \<or>
      (sublist ''cloudflare'' (lower src) \<and> sublist ''ray id'' (lower src)))"

definition get_email :: "detail_world \<Rightarrow> string \<Rightarrow> string" where
  "get_email dw website =
     (if \<not> detail_get_ok dw then []
      else if safety_is_blocked (source_loaded dw)
      then (if website \<noteq> [] \<and> safety_is_valid_website website
            then get_email_from_site (site dw) website
            else BLOCKED)
      else case source_scrolled dw of
             None \<Rightarrow> []
           | Some src \<Rightarrow>
               (case safety_scan src of
                  Some e \<Rightarrow> e
                | None \<Rightarrow>
                    if website \<noteq> [] \<and> safety_is_valid_website website
                    then get_email_from_site (site dw) website
                    else []))"

section \<open>Records read back from the artifact\<close>

text \<open>
  At its start a task reads the rows of its artifact, if the file exists, with
  \<^verbatim>\<open>pd.read_excel(output_file).to_dict('records')\<close>. A record has one cell for each
  column, and a cell is a text or, where the spreadsheet has nothing, the float
  \<^verbatim>\<open>nan\<close>; \<^verbatim>\<open>lead.get(column, "")\<close> is the cell (\<^term>\<open>Str []\<close> for a column that the file
  does not have). The columns are the keys of a lead, without its identity, which
  \<^verbatim>\<open>save_leads_to_excel\<close> does not write (in the safety file the columns are named
  \<^verbatim>\<open>"Email"\<close>, \<^verbatim>\<open>"Phone"\<close> and \<^verbatim>\<open>"Website"\<close>). When there is no file, or when reading
  it raises, there are no records.
\<close>

record row =
  Company_Name_cell :: pyval
  Label_cell :: pyval
  Category_cell :: pyval
  Email_Address_cell :: pyval
  Phone_Number_cell :: pyval
  Website_URL_cell :: pyval
  Address_cell :: pyval
  Date_Added_cell :: pyval
  Source_cell :: pyval

text \<open>\<^verbatim>\<open>not v\<close>: the empty string and \<^verbatim>\<open>None\<close> are false, \<^verbatim>\<open>nan\<close> is true.\<close>

fun py_not :: "pyval \<Rightarrow> bool" where
  "py_not (Str s) = (s = [])"
| "py_not NoneVal = True"
| "py_not NaN = False"

text \<open>
  \<^verbatim>\<open>is_valid_website\<close> called with a cell. Both files begin with \<^verbatim>\<open>if not url or not
  url.strip()\<close>: a value that is false is rejected, and on any other value that is not a
  string \<^verbatim>\<open>url.strip()\<close> raises.
\<close>

definition janitor_is_valid_website_cell :: "pyval \<Rightarrow> py_error + bool" where
  "janitor_is_valid_website_cell url =
     (if py_not url then Inr False
      else case url of Str s \<Rightarrow> Inr (janitor_is_valid_website s) | _ \<Rightarrow> Inl AttributeError)"

definition safety_is_valid_website_cell :: "pyval \<Rightarrow> py_error + bool" where
  "safety_is_valid_website_cell url =
     (if py_not url then Inr False
      else case url of Str s \<Rightarrow> Inr (safety_is_valid_website s) | _ \<Rightarrow> Inl AttributeError)"

text \<open>\<^verbatim>\<open>[l for l in records if is_valid_website(l.get("Website URL", ""))]\<close>: the
  comprehension raises at the first record whose test raises.\<close>

fun filter_records :: "(pyval \<Rightarrow> py_error + bool) \<Rightarrow> row list \<Rightarrow> py_error + row list" where
  "filter_records ok [] = Inr []"
| "filter_records ok (r # rs) =
     (case ok (Website_URL_cell r) of
        Inl e \<Rightarrow> Inl e
      | Inr b \<Rightarrow> (case filter_records ok rs of
                    Inl e \<Rightarrow> Inl e
                  | Inr kept \<Rightarrow> Inr (if b then r # kept else kept)))"

text \<open>
  The reload of \<^verbatim>\<open>yp_5_janitor.py\<close>. The result is \<^verbatim>\<open>existing_file_leads\<close> after the
  statement: the records, each with its \<^verbatim>\<open>"_lead_id"\<close> if it has been given one. The bare
  \<^verbatim>\<open>except\<close> swallows an exception of the filter, and then the variable still holds all
  the records as they were read.
  \<^verbatim>\<open>
  try:
      df = pd.read_excel(output_file)
      existing_file_leads = df.to_dict('records')
      existing_file_leads = [l for l in existing_file_leads if is_valid_website(l.get("Website URL", ""))]
      for lead in existing_file_leads:
          lead["_lead_id"] = generate_lead_id(
              str(lead.get("Company Name", "")), str(lead.get("Phone Number", "")))
  except:
      pass
  \<close>
\<close>

definition janitor_load_existing :: "(string \<Rightarrow> string) \<Rightarrow> row list \<Rightarrow> (row \<times> string option) list" where
  "janitor_load_existing md5 records =
     (case filter_records janitor_is_valid_website_cell records of
        Inl e \<Rightarrow> map (\<lambda>r. (r, None)) records
      | Inr kept \<Rightarrow>
          map (\<lambda>r. (r, Some (janitor_generate_lead_id md5 (Str (py_str (Company_Name_cell r)))
                                                          (Str (py_str (Phone_Number_cell r))))))
              kept)"

text \<open>
  The reload of \<^verbatim>\<open>yp_6_safety.py\<close>, with \<^verbatim>\<open>gen_id\<close> on the cells themselves:
  \<^verbatim>\<open>
  try:
      df = pd.read_excel(outfile); existing = df.to_dict('records')
      existing = [l for l in existing if is_valid_website(l.get("Website",""))]
      for l in existing: l["_id"] = gen_id(l.get("Company Name",""), l.get("Phone",""))
  except: pass
  \<close>
\<close>

definition safety_load_existing :: "(string \<Rightarrow> string) \<Rightarrow> row list \<Rightarrow> (row \<times> string option) list" where
  "safety_load_existing md5 records =
     (case filter_records safety_is_valid_website_cell records of
        Inl e \<Rightarrow> map (\<lambda>r. (r, None)) records
      | Inr kept \<Rightarrow>
          map (\<lambda>r. (r, Some (gen_id md5 (Company_Name_cell r) (Phone_Number_cell r)))) kept)"

text \<open>
  The reload of \<^verbatim>\<open>yp_b2b_warehouse_scraper.py\<close>. There is no filter, and
  \<^verbatim>\<open>generate_lead_id\<close> of this file is called on the cells themselves: at the first
  record where it raises the loop is left, the records before it have their
  \<^verbatim>\<open>"_lead_id"\<close>, that record and those after it have none.
  \<^verbatim>\<open>
  try:
      df = pd.read_excel(output_file)
      existing_file_leads = df.to_dict('records')
      for lead in existing_file_leads:
          lead["_lead_id"] = generate_lead_id(
              lead.get("Company Name", ""), lead.get("Phone Number", ""))
  except:
      pass
  \<close>
\<close>

fun b2b_load_existing :: "(string \<Rightarrow> string) \<Rightarrow> row list \<Rightarrow> (row \<times> string option) list" where
  "b2b_load_existing md5 [] = []"
| "b2b_load_existing md5 (r # rs) =
     (case b2b_generate_lead_id md5 (Company_Name_cell r) (Phone_Number_cell r) of
        Inl e \<Rightarrow> map (\<lambda>r. (r, None)) (r # rs)
      | Inr i \<Rightarrow> (r, Some i) # b2b_load_existing md5 rs)"

text \<open>
  A record that is kept among the leads of the task is written again cell by cell, a
  \<^verbatim>\<open>nan\<close> as an empty cell. As a lead it has the text of its cells, the empty text for a
  cell that is not a text.
\<close>

fun cell_text :: "pyval \<Rightarrow> string" where
  "cell_text (Str s) = s"
| "cell_text NoneVal = []"
| "cell_text NaN = []"

definition lead_of_row :: "row \<Rightarrow> string \<Rightarrow> lead" where
  "lead_of_row r i =
     \<lparr>Company_Name = cell_text (Company_Name_cell r), Label = cell_text (Label_cell r),
      Category = cell_text (Category_cell r), Email_Address = cell_text (Email_Address_cell r),
      Phone_Number = cell_text (Phone_Number_cell r), Website_URL = cell_text (Website_URL_cell r),
      Address = cell_text (Address_cell r), Date_Added = cell_text (Date_Added_cell r),
      Source = cell_text (Source_cell r), lead_id = i\<rparr>"

text \<open>
  \<^verbatim>\<open>all_leads = list(existing_file_leads)\<close> and
  \<^verbatim>\<open>local_ids = {lead["_lead_id"] for lead in all_leads}\<close>: the subscript raises
  \<^verbatim>\<open>KeyError\<close> at the first record that has no \<^verbatim>\<open>"_lead_id"\<close>; otherwise the records are
  the leads the task starts with.
\<close>

fun with_ids :: "(row \<times> string option) list \<Rightarrow> py_error + lead list" where
  "with_ids [] = Inr []"
| "with_ids ((r, None) # rs) = Inl KeyError"
| "with_ids ((r, Some i) # rs) =
     (case with_ids rs of Inl e \<Rightarrow> Inl e | Inr leads \<Rightarrow> Inr (lead_of_row r i # leads))"

text \<open>The artifact as the task finds it, row by row; a row of the file has no
  identity.\<close>

definition artifact_rows :: "row list \<Rightarrow> lead list" where
  "artifact_rows records = map (\<lambda>r. lead_of_row r []) records"

section \<open>Pagination controller: janitor and B2B\<close>

text \<open>
  What the outside world does during one task is the input of the page loop. For the search
  page \<open>p\<close>: \<open>nav_ok a\<close> tells whether the attempt \<open>a\<close> (from 0) of \<^verbatim>\<open>driver.get(url)\<close>
  returns rather than raises; \<open>view loaded\<close> is what \<^verbatim>\<open>get_listings_from_page\<close> meets in
  the browser afterwards (it may depend on whether a load succeeded): a call of the driver
  outside its \<^verbatim>\<open>try\<close> raises, or the wait for the results times out, or there are the
  \<^verbatim>\<open>.result\<close> elements; \<open>detail i\<close> is the detail world of the \<open>i\<close>-th new listing of the
  page; \<open>save_ok\<close> tells whether writing the spreadsheet after the page returns rather
  than raises. \<^verbatim>\<open>create_driver\<close> is taken to return. Sleeps of a random length and prints
  are left out; \<^verbatim>\<open>FETCH_EMAILS\<close> and \<^verbatim>\<open>RESTART_DRIVER_EACH_PAGE\<close> are \<^verbatim>\<open>True\<close>,
  \<^verbatim>\<open>START_PAGE\<close> is 1 and \<^verbatim>\<open>MAX_RETRIES\<close> is 3, as the files set them.
\<close>

datatype page_view = Raises | NoResults | Results "listing list"

record page_world =
  nav_ok :: "nat \<Rightarrow> bool"
  view :: "bool \<Rightarrow> page_view"
  detail :: "nat \<Rightarrow> detail_world"
  save_ok :: bool

text \<open>The calls the task makes, in order: navigation to a search page, a sleep of a fixed
  number of seconds, creation and teardown of a browser session, a write of the output
  artifact that returns (with the rows written), a write that raises.\<close>

datatype event = Nav nat | Sleep nat | Create | Quit | Save "lead list" | SaveError

record task_state =
  all_leads :: "lead list"
  local_ids :: "string set"
  new_leads_count :: nat
  blocked_count :: nat
  artifact :: "lead list"
  trace :: "event list"

text \<open>The places where the janitor and the B2B file differ, apart from the page loop:
  the parser, the reload of the artifact, the email extraction, the filter of
  \<^verbatim>\<open>save_leads_to_excel\<close>, and \<^verbatim>\<open>MAX_PAGES\<close>.\<close>

record ops =
  parse :: "listing \<Rightarrow> lead option"
  load_existing :: "row list \<Rightarrow> (row \<times> string option) list"
  extract_email :: "detail_world \<Rightarrow> string \<Rightarrow> string"
  website_ok :: "string \<Rightarrow> bool"
  MAX_PAGES :: nat

definition janitor_ops :: "(string \<Rightarrow> string) \<Rightarrow> string \<Rightarrow> ops" where
  "janitor_ops md5 today =
     \<lparr>parse = janitor_parse_listing md5 today,
      load_existing = janitor_load_existing md5,
      extract_email = janitor_extract_email_from_detail,
      website_ok = janitor_is_valid_website,
      MAX_PAGES = 5\<rparr>"

text \<open>The B2B file has no filter on save.\<close>

definition b2b_ops :: "(string \<Rightarrow> string) \<Rightarrow> string \<Rightarrow> string \<Rightarrow> ops" where
  "b2b_ops md5 search_label today =
     \<lparr>parse = b2b_parse_listing md5 search_label today,
      load_existing = b2b_load_existing md5,
      extract_email = b2b_extract_email_from_detail,
      website_ok = (\<lambda>url. True),
      MAX_PAGES = 10\<rparr>"

definition MAX_RETRIES :: nat where
  "MAX_RETRIES = 3"

text \<open>
  \<^verbatim>\<open>
  for attempt in range(MAX_RETRIES):
      try:
          driver.get(url)
          time.sleep(2)
          break
      except Exception as e:
          if attempt < MAX_RETRIES - 1:
              time.sleep(5)
          else:
              continue
  \<close>
  The \<^verbatim>\<open>continue\<close> is the one of this inner loop. The result tells whether a load
  succeeded, with the calls made.
\<close>

fun load_attempts :: "page_world \<Rightarrow> nat \<Rightarrow> nat list \<Rightarrow> bool \<times> event list" where
  "load_attempts pw page [] = (False, [])"
| "load_attempts pw page (attempt # attempts) =
     (if nav_ok pw attempt then (True, [Nav page, Sleep 2])
      else (fst (load_attempts pw page attempts),
            Nav page # (if attempt < MAX_RETRIES - 1 then [Sleep 5] else [])
              @ snd (load_attempts pw page attempts)))"

definition load_page :: "page_world \<Rightarrow> nat \<Rightarrow> bool \<times> event list" where
  "load_page pw page = load_attempts pw page [0..<MAX_RETRIES]"

text \<open>
  \<^verbatim>\<open>get_listings_from_page\<close>: \<^verbatim>\<open>[]\<close> when the wait times out, else the parsed fragments
  that \<^verbatim>\<open>parse_listing\<close> does not reject (a fragment whose \<^verbatim>\<open>outerHTML\<close> cannot be read is
  skipped like a rejected one). \<^term>\<open>None\<close> is an exception leaving the function.
\<close>

definition get_listings_from_page :: "(listing \<Rightarrow> lead option) \<Rightarrow> page_view \<Rightarrow> lead list option" where
  "get_listings_from_page prs pv =
     (case pv of
        Raises \<Rightarrow> None
      | NoResults \<Rightarrow> Some []
      | Results ls \<Rightarrow> Some (List.map_filter prs ls))"

text \<open>
  \<^verbatim>\<open>
  new_listings = []
  for listing in page_listings:
      lead_id = listing["_lead_id"]
      if lead_id not in existing_ids and lead_id not in local_ids:
          new_listings.append(listing)
          local_ids.add(lead_id)
  \<close>
\<close>

fun filter_dupes :: "string set \<Rightarrow> string set \<Rightarrow> lead list \<Rightarrow> lead list \<times> string set" where
  "filter_dupes existing_ids locals [] = ([], locals)"
| "filter_dupes existing_ids locals (l # ls) =
     (if lead_id l \<notin> existing_ids \<and> lead_id l \<notin> locals
      then (l # fst (filter_dupes existing_ids (insert (lead_id l) locals) ls),
            snd (filter_dupes existing_ids (insert (lead_id l) locals) ls))
      else filter_dupes existing_ids locals ls)"

text \<open>
  The email loop over the new listings of a page; the result is the listings with their
  emails, the block counter and the calls made.
  \<^verbatim>\<open>
  email = extract_email_from_detail(driver, lead["Source"], website_url=lead.get("Website URL", ""), ...)
  if email == "__BLOCKED__":
      blocked_count += 1
      if blocked_count >= 5:
          driver.quit(); time.sleep(10); driver = create_driver(); blocked_count = 0
  elif email:
      lead["Email Address"] = email
  \<close>
\<close>

fun fetch_emails :: "(detail_world \<Rightarrow> string \<Rightarrow> string) \<Rightarrow> (nat \<Rightarrow> detail_world) \<Rightarrow> nat \<Rightarrow> lead list \<Rightarrow> nat
    \<Rightarrow> lead list \<times> nat \<times> event list" where
  "fetch_emails ext dws i [] blocked = ([], blocked, [])"
| "fetch_emails ext dws i (l # ls) blocked =
     (let email = ext (dws i) (Website_URL l) in
      if email = BLOCKED
      then (if blocked + 1 \<ge> 5
            then (case fetch_emails ext dws (i + 1) ls 0 of
                    (ls', b, ev) \<Rightarrow> (l # ls', b, [Quit, Sleep 10, Create] @ ev))
            else (case fetch_emails ext dws (i + 1) ls (blocked + 1) of
                    (ls', b, ev) \<Rightarrow> (l # ls', b, ev)))
      else if email \<noteq> []
      then (case fetch_emails ext dws (i + 1) ls blocked of
              (ls', b, ev) \<Rightarrow> (l\<lparr>Email_Address := email\<rparr> # ls', b, ev))
      else (case fetch_emails ext dws (i + 1) ls blocked of
              (ls', b, ev) \<Rightarrow> (l # ls', b, ev)))"

text \<open>
  \<^verbatim>\<open>save_leads_to_excel\<close>: the rows it writes, \<^term>\<open>None\<close> when it returns without writing
  (no lead, or in the janitor file no lead with a valid website). The row number and the
  removal of the key \<^verbatim>\<open>"_lead_id"\<close> are presentation and are not modelled.
\<close>

definition save_rows :: "(lead \<Rightarrow> bool) \<Rightarrow> lead list \<Rightarrow> lead list option" where
  "save_rows kp leads = (if filter kp leads = [] then None else Some (filter kp leads))"

text \<open>
  The body of the page loop of \<^verbatim>\<open>scrape_search\<close> for one page. It ends by falling through
  or \<^verbatim>\<open>continue\<close> (\<open>Next\<close>), by \<^verbatim>\<open>break\<close> (\<open>Break\<close>), or by an exception that leaves the
  loop (\<open>Raise\<close>).
  \<^verbatim>\<open>
  for page in range(START_PAGE, MAX_PAGES + 1):
      ... load with retries ...
      page_listings = get_listings_from_page(driver)
      if not page_listings: break
      ... filter dupes ...
      if not new_listings: continue
      ... fetch emails ...
      all_leads.extend(new_listings)
      new_leads_count += len(new_listings)
      save_leads_to_excel(all_leads, output_file)
      if page < MAX_PAGES:
          driver.quit(); time.sleep(3); driver = create_driver()
  \<close>
\<close>

datatype flow = Next task_state | Break task_state | Raise task_state

definition keep :: "ops \<Rightarrow> lead \<Rightarrow> bool" where
  "keep v l = website_ok v (Website_URL l)"

definition page_body :: "ops \<Rightarrow> page_world \<Rightarrow> string set \<Rightarrow> nat \<Rightarrow> task_state \<Rightarrow> flow" where
  "page_body v pw existing_ids page st =
     (let loaded = load_page pw page;
          st1 = st\<lparr>trace := trace st @ snd loaded\<rparr>
      in case get_listings_from_page (parse v) (view pw (fst loaded)) of
           None \<Rightarrow> Raise st1
         | Some page_listings \<Rightarrow>
             if page_listings = [] then Break st1
             else
               (let dd = filter_dupes existing_ids (local_ids st1) page_listings;
                    st2 = st1\<lparr>local_ids := snd dd\<rparr>
                in if fst dd = [] then Next st2
                   else
                     (case fetch_emails (extract_email v) (detail pw) 0 (fst dd) (blocked_count st2) of
                        (new_listings, blocked, ev) \<Rightarrow>
                          (let st3 = st2\<lparr>all_leads := all_leads st2 @ new_listings,
                                          new_leads_count := new_leads_count st2 + length new_listings,
                                          blocked_count := blocked,
                                          trace := trace st2 @ ev\<rparr>;
                               restart = (if page < MAX_PAGES v then [Quit, Sleep 3, Create] else [])
                           in case save_rows (keep v) (all_leads st3) of
                                None \<Rightarrow> Next (st3\<lparr>trace := trace st3 @ restart\<rparr>)
                              | Some rows \<Rightarrow>
                                  if save_ok pw
                                  then Next (st3\<lparr>artifact := rows,
                                                  trace := trace st3 @ [Save rows] @ restart\<rparr>)
                                  else Raise (st3\<lparr>trace := trace st3 @ [SaveError]\<rparr>)))))"

text \<open>The loop over the pages still to visit; the result tells whether an exception left
  the loop.\<close>

fun pages_loop :: "ops \<Rightarrow> (nat \<Rightarrow> page_world) \<Rightarrow> string set \<Rightarrow> nat list \<Rightarrow> task_state \<Rightarrow> bool \<times> task_state" where
  "pages_loop v w existing_ids [] st = (False, st)"
| "pages_loop v w existing_ids (page # pages) st =
     (case page_body v (w page) existing_ids page st of
        Next st' \<Rightarrow> pages_loop v w existing_ids pages st'
      | Break st' \<Rightarrow> (False, st')
      | Raise st' \<Rightarrow> (True, st'))"

text \<open>
  \<^verbatim>\<open>scrape_search\<close>, from \<^verbatim>\<open>driver = create_driver()\<close> on. The task starts with the
  leads read back and their identities as the local scope.
\<close>

definition initial_state :: "lead list \<Rightarrow> lead list \<Rightarrow> task_state" where
  "initial_state existing_file_leads found =
     \<lparr>all_leads = existing_file_leads,
      local_ids = set (map lead_id existing_file_leads),
      new_leads_count = 0, blocked_count = 0,
      artifact = found, trace = [Create]\<rparr>"

text \<open>
  How the function ends: the loop ended normally, or an exception was caught by
  \<^verbatim>\<open>except Exception\<close>, which writes the leads again when there are any
  (\<open>flush_ok\<close> tells whether that write returns; if it raises, the exception leaves the
  function after the \<^verbatim>\<open>finally\<close> clause), or an exception was raised before the
  \<^verbatim>\<open>try\<close> statement, where there is neither handler nor \<^verbatim>\<open>finally\<close> clause.
\<close>

datatype ending = Completed | Caught | Escaped | Uncaught

text \<open>
  The \<^verbatim>\<open>try\<close> statement: the page loop, the handler, and \<^verbatim>\<open>finally: driver.quit()\<close>,
  which runs in every case.
  \<^verbatim>\<open>
  try:
      for page in range(START_PAGE, MAX_PAGES + 1): ...
  except Exception as e:
      if all_leads:
          save_leads_to_excel(all_leads, output_file)
  finally:
      try: driver.quit()
      except: pass
  \<close>
\<close>

definition task_body :: "ops \<Rightarrow> (nat \<Rightarrow> page_world) \<Rightarrow> bool \<Rightarrow> string set \<Rightarrow> task_state \<Rightarrow> ending \<times> task_state" where
  "task_body v w flush_ok existing_ids st0 =
     (case pages_loop v w existing_ids [1..<Suc (MAX_PAGES v)] st0 of
        (raised, st) \<Rightarrow>
          if raised
          then (case save_rows (keep v) (all_leads st) of
                  None \<Rightarrow> (Caught, st\<lparr>trace := trace st @ [Quit]\<rparr>)
                | Some rows' \<Rightarrow>
                    if flush_ok
                    then (Caught, st\<lparr>artifact := rows', trace := trace st @ [Save rows', Quit]\<rparr>)
                    else (Escaped, st\<lparr>trace := trace st @ [SaveError, Quit]\<rparr>))
          else (Completed, st\<lparr>trace := trace st @ [Quit]\<rparr>))"

text \<open>
  \<^verbatim>\<open>scrape_search\<close>. \<open>rows\<close> are the records read from the task's artifact. The browser
  session is created after the reload and before the local scope is built: when a record
  has no \<^verbatim>\<open>"_lead_id"\<close> the \<^verbatim>\<open>KeyError\<close> leaves the function there, with the session
  open and nothing returned.
  \<^verbatim>\<open>
  driver = create_driver()
  all_leads = list(existing_file_leads)
  local_ids = {lead["_lead_id"] for lead in all_leads}
  new_leads_count = 0
  blocked_count = 0
  try: ...
  \<close>
\<close>

definition scrape_search :: "ops \<Rightarrow> (nat \<Rightarrow> page_world) \<Rightarrow> bool \<Rightarrow> string set \<Rightarrow> row list \<Rightarrow> ending \<times> task_state" where
  "scrape_search v w flush_ok existing_ids rows =
     (case with_ids (load_existing v rows) of
        Inl e \<Rightarrow> (Uncaught, initial_state [] (artifact_rows rows))
      | Inr existing_file_leads \<Rightarrow>
          task_body v w flush_ok existing_ids
            (initial_state existing_file_leads (artifact_rows rows)))"

section \<open>Pagination controller: safety\<close>

text \<open>
  \<^verbatim>\<open>get_page_listings\<close> of \<^verbatim>\<open>yp_6_safety.py\<close> is \<^term>\<open>get_listings_from_page\<close> with the
  safety parser. The email loop:
  \<^verbatim>\<open>
  em = get_email(driver, l["Source"], l.get("Website",""))
  if em == "__BLOCKED__": blocks += 1
  elif em: l["Email"] = em
  if blocks >= 5:
      driver.quit(); time.sleep(5); driver = create_driver(); blocks = 0
  \<close>
\<close>

fun safety_fetch_emails :: "(nat \<Rightarrow> detail_world) \<Rightarrow> nat \<Rightarrow> lead list \<Rightarrow> nat \<Rightarrow> lead list \<times> nat \<times> event list" where
  "safety_fetch_emails dws i [] blocks = ([], blocks, [])"
| "safety_fetch_emails dws i (l # ls) blocks =
     (let em = get_email (dws i) (Website_URL l);
          l' = (if em = BLOCKED then l else if em \<noteq> [] then l\<lparr>Email_Address := em\<rparr> else l);
          blocks' = (if em = BLOCKED then blocks + 1 else blocks)
      in if blocks' \<ge> 5
         then (case safety_fetch_emails dws (i + 1) ls 0 of
                 (ls', b, ev) \<Rightarrow> (l' # ls', b, [Quit, Sleep 5, Create] @ ev))
         else (case safety_fetch_emails dws (i + 1) ls blocks' of
                 (ls', b, ev) \<Rightarrow> (l' # ls', b, ev)))"

definition SAFETY_MAX_PAGES :: nat where
  "SAFETY_MAX_PAGES = 5"

text \<open>\<^verbatim>\<open>save_xlsx\<close> writes the leads whose website passes the filter, and nothing when there
  is none.\<close>

definition save_xlsx :: "lead list \<Rightarrow> lead list option" where
  "save_xlsx leads = save_rows (\<lambda>l. safety_is_valid_website (Website_URL l)) leads"

text \<open>
  The body of the page loop of \<^verbatim>\<open>scrape\<close> for one page:
  \<^verbatim>\<open>
  for pg in range(1, MAX_PAGES+1):
      try: driver.get(pg_url); time.sleep(2)
      except: continue
      listings = get_page_listings(driver)
      if not listings: break
      new_lst = [l for l in listings if l["_id"] not in existing_ids and l["_id"] not in local_ids]
      for l in new_lst: local_ids.add(l["_id"])
      if not new_lst: continue
      ... emails ...
      leads.extend(new_lst); new_ct += len(new_lst)
      save_xlsx(leads, outfile)
      if pg < MAX_PAGES:
          driver.quit(); time.sleep(3); driver = create_driver()
  \<close>
  The single attempt of the load is \<open>nav_ok 0\<close>.
\<close>

definition safety_page_body :: "(string \<Rightarrow> string) \<Rightarrow> string \<Rightarrow> page_world \<Rightarrow> string set \<Rightarrow> nat \<Rightarrow> task_state \<Rightarrow> flow" where
  "safety_page_body md5 today pw existing_ids pg st =
     (if \<not> nav_ok pw 0 then Next (st\<lparr>trace := trace st @ [Nav pg]\<rparr>)
      else
        (let st1 = st\<lparr>trace := trace st @ [Nav pg, Sleep 2]\<rparr>
         in case get_listings_from_page (safety_parse_listing md5 today) (view pw True) of
              None \<Rightarrow> Raise st1
            | Some listings \<Rightarrow>
                if listings = [] then Break st1
                else
                  (let new_lst = filter (\<lambda>l. lead_id l \<notin> existing_ids \<and> lead_id l \<notin> local_ids st1) listings;
                       st2 = st1\<lparr>local_ids := local_ids st1 \<union> set (map lead_id new_lst)\<rparr>
                   in if new_lst = [] then Next st2
                      else
                        (case safety_fetch_emails (detail pw) 0 new_lst (blocked_count st2) of
                           (new_lst', blocks, ev) \<Rightarrow>
                             (let st3 = st2\<lparr>all_leads := all_leads st2 @ new_lst',
                                             new_leads_count := new_leads_count st2 + length new_lst',
                                             blocked_count := blocks,
                                             trace := trace st2 @ ev\<rparr>;
                                  restart = (if pg < SAFETY_MAX_PAGES then [Quit, Sleep 3, Create] else [])
                              in case save_xlsx (all_leads st3) of
                                   None \<Rightarrow> Next (st3\<lparr>trace := trace st3 @ restart\<rparr>)
                                 | Some rows \<Rightarrow>
                                     if save_ok pw
                                     then Next (st3\<lparr>artifact := rows,
                                                     trace := trace st3 @ [Save rows] @ restart\<rparr>)
                                     else Raise (st3\<lparr>trace := trace st3 @ [SaveError]\<rparr>))))))"

fun safety_pages_loop :: "(string \<Rightarrow> string) \<Rightarrow> string \<Rightarrow> (nat \<Rightarrow> page_world) \<Rightarrow> string set \<Rightarrow> nat list \<Rightarrow> task_state \<Rightarrow> bool \<times> task_state" where
  "safety_pages_loop md5 today w existing_ids [] st = (False, st)"
| "safety_pages_loop md5 today w existing_ids (pg # pgs) st =
     (case safety_page_body md5 today (w pg) existing_ids pg st of
        Next st' \<Rightarrow> safety_pages_loop md5 today w existing_ids pgs st'
      | Break st' \<Rightarrow> (False, st')
      | Raise st' \<Rightarrow> (True, st'))"

text \<open>
  The \<^verbatim>\<open>try\<close> statement of \<^verbatim>\<open>scrape\<close>: the handler is
  \<^verbatim>\<open>except Exception as e: print(f"Error: {e}")\<close>, then \<^verbatim>\<open>finally: driver.quit()\<close>.
\<close>

definition safety_task_body :: "(string \<Rightarrow> string) \<Rightarrow> string \<Rightarrow> (nat \<Rightarrow> page_world) \<Rightarrow> string set \<Rightarrow> task_state \<Rightarrow> ending \<times> task_state" where
  "safety_task_body md5 today w existing_ids st0 =
     (case safety_pages_loop md5 today w existing_ids [1..<Suc SAFETY_MAX_PAGES] st0 of
        (raised, st) \<Rightarrow>
          (if raised then Caught else Completed, st\<lparr>trace := trace st @ [Quit]\<rparr>))"

text \<open>
  \<^verbatim>\<open>scrape\<close>: as in the other files the session is created before the local scope is
  built, outside the \<^verbatim>\<open>try\<close> statement.
  \<^verbatim>\<open>
  driver = create_driver(); leads = list(existing); local_ids = {l["_id"] for l in leads}; new_ct = 0; blocks = 0
  try: ...
  \<close>
\<close>

definition scrape :: "(string \<Rightarrow> string) \<Rightarrow> string \<Rightarrow> (nat \<Rightarrow> page_world) \<Rightarrow> string set \<Rightarrow> row list \<Rightarrow> ending \<times> task_state" where
  "scrape md5 today w existing_ids rows =
     (case with_ids (safety_load_existing md5 rows) of
        Inl e \<Rightarrow> (Uncaught, initial_state [] (artifact_rows rows))
      | Inr existing \<Rightarrow>
          safety_task_body md5 today w existing_ids (initial_state existing (artifact_rows rows)))"

text \<open>Whether a browser session is open after a sequence of calls.\<close>

fun session_after :: "bool \<Rightarrow> event list \<Rightarrow> bool" where
  "session_after b [] = b"
| "session_after b (Create # es) = session_after True es"
| "session_after b (Quit # es) = session_after False es"
| "session_after b (e # es) = session_after b es"

section \<open>Notions used in the statements\<close>

text \<open>The email field of a lead is acceptable: empty, or accepted by the validator.\<close>

definition email_fine :: "(string \<Rightarrow> bool) \<Rightarrow> lead \<Rightarrow> bool" where
  "email_fine valid l = (Email_Address l = [] \<or> valid (Email_Address l))"

text \<open>A lead as the email loop leaves it: unchanged, or with a valid email written.\<close>

definition email_set :: "(string \<Rightarrow> bool) \<Rightarrow> lead \<Rightarrow> lead \<Rightarrow> bool" where
  "email_set valid l n = (n = l \<or> (\<exists>e. valid e \<and> n = l\<lparr>Email_Address := e\<rparr>))"

text \<open>The state in which the body of the page loop ends, and the rows of all the writes
  in a sequence of calls.\<close>

fun flow_state :: "flow \<Rightarrow> task_state" where
  "flow_state (Next st) = st"
| "flow_state (Break st) = st"
| "flow_state (Raise st) = st"

fun saved_rows :: "event list \<Rightarrow> lead list" where
  "saved_rows [] = []"
| "saved_rows (Save rows # es) = rows @ saved_rows es"
| "saved_rows (e # es) = saved_rows es"

text \<open>Every email held by the task, in memory or in the artifact or in a write of it, is
  acceptable.\<close>

definition emails_fine :: "(string \<Rightarrow> bool) \<Rightarrow> task_state \<Rightarrow> bool" where
  "emails_fine valid st =
     (list_all (email_fine valid) (all_leads st) \<and>
      list_all (email_fine valid) (artifact st) \<and>
      list_all (email_fine valid) (saved_rows (trace st)))"

text \<open>The leads that \<^verbatim>\<open>get_listings_from_page\<close> returns for a page of the task
  (\<^verbatim>\<open>get_page_listings\<close> in the safety file, where the page is parsed only after a load
  that succeeded).\<close>

definition page_listings :: "ops \<Rightarrow> page_world \<Rightarrow> nat \<Rightarrow> lead list option" where
  "page_listings v pw page =
     get_listings_from_page (parse v) (view pw (fst (load_page pw page)))"

definition safety_page_listings :: "(string \<Rightarrow> string) \<Rightarrow> string \<Rightarrow> page_world \<Rightarrow> lead list option" where
  "safety_page_listings md5 today pw =
     get_listings_from_page (safety_parse_listing md5 today) (view pw True)"

text \<open>
  The artifact reflects the leads \<open>leads\<close> of a task that started with the leads \<open>leads0\<close>
  read from the rows \<open>rows0\<close>: it was written from them, or nothing was accepted yet and
  the artifact is as it was found.
\<close>

definition persisted :: "lead list \<Rightarrow> lead list \<Rightarrow> lead list \<Rightarrow> lead list \<Rightarrow> bool" where
  "persisted leads0 rows0 leads art = (art = leads \<or> (leads = leads0 \<and> art = rows0))"

text \<open>
  What is held in memory at the end of a task beyond what the artifact reflects is at most
  the new leads of one page, whose write raised: the leads are \<open>prev @ new\<close>, the
  artifact reflects \<open>prev\<close>, and \<open>new\<close> is empty or carries identities of the listings
  \<open>ls\<close> of a page \<open>p\<close> among \<open>pages\<close> whose write raises.
\<close>

definition one_page_behind :: "(nat \<Rightarrow> lead list option) \<Rightarrow> (nat \<Rightarrow> bool) \<Rightarrow> nat list \<Rightarrow> lead list \<Rightarrow> lead list \<Rightarrow> lead list \<Rightarrow> lead list \<Rightarrow> bool" where
  "one_page_behind listings_of write_ok pages leads0 rows0 leads art =
     (\<exists>prev new. leads = prev @ new \<and> persisted leads0 rows0 prev art \<and>
        (new = [] \<or>
         (\<exists>p ls. p \<in> set pages \<and> write_ok p = False \<and> listings_of p = Some ls \<and>
                 set (map lead_id new) \<subseteq> set (map lead_id ls))))"

section \<open>Example inputs\<close>

text \<open>A result fragment of a business named Acme Paper, with the given website link
  (\<^term>\<open>None\<close>: the fragment has no website link).\<close>

definition acme_listing :: "string option \<Rightarrow> listing" where
  "acme_listing w =
     \<lparr>business_name_span = None,
      business_name = Some \<lparr>text_of = ''Acme Paper'', href = Some ''/queens-ny/mip/acme-paper-1''\<rparr>,
      track_visit_website = map_option (\<lambda>u. \<lparr>text_of = ''Website'', href = Some u\<rparr>) w,
      phones = Some \<lparr>text_of = ''(718) 555-0100'', href = None\<rparr>,
      street_address = None, locality = None, categories = None\<rparr>"

text \<open>A result fragment in which no business name is found.\<close>

definition nameless_listing :: listing where
  "nameless_listing =
     \<lparr>business_name_span = None, business_name = None,
      track_visit_website = Some \<lparr>text_of = ''Website'', href = Some ''https://acme.com''\<rparr>,
      phones = Some \<lparr>text_of = ''(718) 555-0100'', href = None\<rparr>,
      street_address = None, locality = None, categories = None\<rparr>"

text \<open>The company website \<^verbatim>\<open>https://acme.com\<close>, whose root page has a \<^verbatim>\<open>mailto:\<close> link to
  \<^verbatim>\<open>info@acme.com\<close>; no other URL loads.\<close>

definition acme_site :: "string \<Rightarrow> web_page option" where
  "acme_site u =
     (if u = ''https://acme.com''
      then Some \<lparr>page_source = ''<a href='' @ [CHR 0x22] @ ''mailto:info@acme.com'' @ [CHR 0x22]
                                  @ ''>Email us</a>'',
                 title = ''Acme Paper''\<rparr>
      else None)"

text \<open>A detail page that the directory answers with its block page.\<close>

definition blocked_detail :: "(string \<Rightarrow> web_page option) \<Rightarrow> detail_world" where
  "blocked_detail st =
     \<lparr>detail_get_ok = True,
      source_loaded = ''<html><h1>Sorry, you have been blocked</h1></html>'',
      source_scrolled = None, email_elements = None, mailto_links = None, soup_links = [],
      site = st\<rparr>"

text \<open>A detail page that fails to load.\<close>

definition no_detail :: detail_world where
  "no_detail =
     \<lparr>detail_get_ok = False, source_loaded = [], source_scrolled = None,
      email_elements = None, mailto_links = None, soup_links = [], site = (\<lambda>u. None)\<rparr>"

text \<open>A task whose first search page shows the given fragments and whose other pages show
  no results; every load succeeds at once, no detail page loads, and a write of the
  artifact returns or raises as \<open>wr\<close> tells.\<close>

definition one_page_world :: "listing list \<Rightarrow> bool \<Rightarrow> nat \<Rightarrow> page_world" where
  "one_page_world ls wr p =
     \<lparr>nav_ok = (\<lambda>a. True),
      view = (\<lambda>loaded. if p = 1 then Results ls else NoResults),
      detail = (\<lambda>i. no_detail),
      save_ok = wr\<rparr>"

text \<open>A task whose first search page shows Acme Paper with the website
  \<^verbatim>\<open>https://acme.com\<close> and whose other pages show no results; the directory blocks the
  detail page, and the company website answers as \<open>st\<close> tells.\<close>

definition blocked_world :: "(string \<Rightarrow> web_page option) \<Rightarrow> nat \<Rightarrow> page_world" where
  "blocked_world st p =
     \<lparr>nav_ok = (\<lambda>a. True),
      view = (\<lambda>loaded. if p = 1 then Results [acme_listing (Some ''https://acme.com'')] else NoResults),
      detail = (\<lambda>i. blocked_detail st),
      save_ok = True\<rparr>"

text \<open>A task in which no search page loads and the browser shows no results.\<close>

definition offline_world :: "nat \<Rightarrow> page_world" where
  "offline_world p =
     \<lparr>nav_ok = (\<lambda>a. False), view = (\<lambda>loaded. NoResults), detail = (\<lambda>i. no_detail),
      save_ok = True\<rparr>"

text \<open>A task in which no search page loads while the browser goes on showing a results
  page with Acme Paper.\<close>

definition stale_world :: "nat \<Rightarrow> page_world" where
  "stale_world p =
     \<lparr>nav_ok = (\<lambda>a. False),
      view = (\<lambda>loaded. Results [acme_listing (Some ''https://acme.com'')]),
      detail = (\<lambda>i. no_detail),
      save_ok = True\<rparr>"

text \<open>A record of the artifact for Acme Paper, with the given website and phone
  cells; the cells of the category, the email and the address are empty.\<close>

definition acme_row :: "pyval \<Rightarrow> pyval \<Rightarrow> row" where
  "acme_row website phone =
     \<lparr>Company_Name_cell = Str ''Acme Paper'', Label_cell = Str ''Wholesale'',
      Category_cell = NaN, Email_Address_cell = NaN, Phone_Number_cell = phone,
      Website_URL_cell = website, Address_cell = NaN, Date_Added_cell = Str ''1/2/26'',
      Source_cell = Str ''https://www.yellowpages.com/queens-ny/mip/acme-paper-1''\<rparr>"

section \<open>Facts about the string operations\<close>

lemma lower_char_space: "is_space (lower_char c) = is_space c"
  unfolding is_space_def lower_char_def
  by (auto split: option.splits if_splits)

lemma lower_char_idem: "lower_char (lower_char c) = lower_char c"
  unfolding lower_char_def
  by (auto split: option.splits if_splits)

lemma lower_idem: "lower (lower s) = lower s"
  by (simp add: lower_def lower_char_idem)

lemma lower_append: "lower (a @ b) = lower a @ lower b"
  by (simp add: lower_def)

lemma lower_dropWhile: "lower (dropWhile is_space s) = dropWhile is_space (lower s)"
  unfolding lower_def
  by (induction s) (simp_all add: lower_char_space)

lemma lower_strip: "lower (strip s) = strip (lower s)"
proof -
  have "lower (rstrip t) = rstrip (lower t)" for t
  proof -
    have "rev (lower (rev (dropWhile is_space (rev t)))) = dropWhile is_space (lower (rev t))"
      by (simp add: lower_def rev_map lower_dropWhile [unfolded lower_def])
    then show ?thesis
      by (metis lower_def rev_map rev_rev_ident rstrip_def)
  qed
  then show ?thesis
    by (simp add: strip_def lstrip_def lower_dropWhile)
qed

lemma sublist_lower: "sublist p s \<Longrightarrow> sublist (lower p) (lower s)"
  unfolding lower_def by (rule map_mono_sublist)

text \<open>A fragment without whitespace that occurs in a string occurs in the stripped string.\<close>

lemma sublist_dropWhile_keep:
  assumes "sublist p s" and "p \<noteq> []" and "\<not> P (hd p)"
  shows "sublist p (dropWhile P s)"
proof -
  from assms(1) obtain a b where s: "s = a @ p @ b"
    by (auto simp: sublist_def)
  have "sublist p (dropWhile P (a @ p @ b))"
  proof (induction a)
    case Nil
    from assms(2,3) have "dropWhile P (p @ b) = p @ b"
      by (cases p) simp_all
    then show ?case by simp
  next
    case (Cons x a)
    show ?case
    proof (cases "P x")
      case True
      with Cons show ?thesis by simp
    next
      case False
      then have "dropWhile P ((x # a) @ p @ b) = (x # a) @ p @ b" by simp
      then show ?thesis by (metis sublist_appendI)
    qed
  qed
  with s show ?thesis by simp
qed

lemma sublist_strip_keep:
  assumes "sublist p s" and "p \<noteq> []" and "\<not> is_space (hd p)" and "\<not> is_space (last p)"
  shows "sublist p (strip s)"
proof -
  have 1: "sublist p (lstrip s)"
    unfolding lstrip_def using assms(1,2,3) by (rule sublist_dropWhile_keep)
  have "sublist (rev p) (rev (lstrip s))"
    using 1 by simp
  moreover have "rev p \<noteq> []" using assms(2) by simp
  moreover have "\<not> is_space (hd (rev p))"
    using assms(2,4) by (simp add: hd_rev)
  ultimately have "sublist (rev p) (dropWhile is_space (rev (lstrip s)))"
    by (rule sublist_dropWhile_keep)
  then have "sublist (rev (rev p)) (rev (dropWhile is_space (rev (lstrip s))))"
    by (simp only: sublist_rev)
  then show ?thesis
    by (simp add: strip_def rstrip_def)
qed

lemma sublist_strip_mono: "sublist p (strip s) \<Longrightarrow> sublist p s"
proof -
  have a: "sublist (strip s) (lstrip s)"
    unfolding strip_def rstrip_def
    by (metis sublist_dropWhile sublist_rev_left)
  have b: "sublist (lstrip s) s"
    unfolding lstrip_def by simp
  assume "sublist p (strip s)"
  with a b show ?thesis
    by (meson sublist_order.order_trans)
qed

lemma strip_all_space: "list_all is_space s \<Longrightarrow> strip s = []"
proof -
  assume "list_all is_space s"
  then have "dropWhile is_space s = []"
    by (simp add: list_all_iff)
  then have "lstrip s = []"
    by (simp only: lstrip_def)
  then show ?thesis
    by (simp add: strip_def rstrip_def)
qed

section \<open>Website filter: the janitor variant\<close>

lemma pattern_no_space:
  "p \<in> set INVALID_WEBSITE_PATTERNS \<Longrightarrow> p \<noteq> [] \<and> \<not> is_space (hd p) \<and> \<not> is_space (last p)"
  by (auto simp: INVALID_WEBSITE_PATTERNS_def is_space_def)

lemma janitor_is_valid_website_empty: "\<not> janitor_is_valid_website []"
  by (simp add: janitor_is_valid_website_def)

lemma janitor_is_valid_website_blank: "list_all is_space url \<Longrightarrow> \<not> janitor_is_valid_website url"
  by (simp add: janitor_is_valid_website_def strip_all_space)

lemma janitor_is_valid_website_NA: "\<not> janitor_is_valid_website ''N/A''"
  by (simp add: janitor_is_valid_website_def)

lemma janitor_is_valid_website_blacklisted:
  assumes "p \<in> set INVALID_WEBSITE_PATTERNS" and "sublist p (lower url)"
  shows "\<not> janitor_is_valid_website url"
proof -
  from pattern_no_space [OF assms(1)] assms(2) have "sublist p (strip (lower url))"
    by (intro sublist_strip_keep) simp_all
  with assms(1) show ?thesis
    by (auto simp: janitor_is_valid_website_def list_ex_iff)
qed

lemma janitor_is_valid_website_example: "janitor_is_valid_website ''https://example-business.com''"
  by code_simp

section \<open>Website filter: the safety variant\<close>

lemma safety_is_valid_website_empty: "\<not> safety_is_valid_website []"
  by (simp add: safety_is_valid_website_def)

lemma safety_is_valid_website_blank: "list_all is_space url \<Longrightarrow> \<not> safety_is_valid_website url"
  by (simp add: safety_is_valid_website_def strip_all_space)

lemma safety_is_valid_website_blacklisted:
  assumes "p \<in> set INVALID_WEBSITE_PATTERNS" and "sublist p (lower url)"
  shows "\<not> safety_is_valid_website url"
proof -
  from pattern_no_space [OF assms(1)] assms(2) have "sublist p (strip (lower url))"
    by (intro sublist_strip_keep) simp_all
  with assms(1) show ?thesis
    by (auto simp: safety_is_valid_website_def list_ex_iff)
qed

lemma safety_is_valid_website_example: "safety_is_valid_website ''https://example-business.com''"
  by code_simp

text \<open>
  C9. The website filter rejects every empty, whitespace-only or \<^verbatim>\<open>"N/A"\<close> string and
  every URL whose lowercase form contains a blacklist fragment, and accepts
  \<^verbatim>\<open>"https://example-business.com"\<close>. The janitor variant does all of it (lemmas above);
  the safety variant has no test for the sentinel: \<^verbatim>\<open>is_valid_website("N/A")\<close> is
  \<^verbatim>\<open>True\<close> there, since \<^verbatim>\<open>"n/a"\<close> contains no blacklist fragment.
\<close>

theorem safety_is_valid_website_accepts_NA:
  "safety_is_valid_website ''N/A'' = True \<and> janitor_is_valid_website ''N/A'' = False"
  by code_simp


section \<open>Identity scheme\<close>

lemma lstrip_pad: "list_all is_space a \<Longrightarrow> lstrip (a @ s) = lstrip s"
  by (induction a) (simp_all add: lstrip_def)

lemma rstrip_pad: "list_all is_space b \<Longrightarrow> rstrip (s @ b) = rstrip s"
proof -
  assume "list_all is_space b"
  then have "list_all is_space (rev b)" by (simp add: list_all_iff)
  then have "lstrip (rev b @ rev s) = lstrip (rev s)" by (rule lstrip_pad)
  then show ?thesis by (simp add: rstrip_def lstrip_def)
qed

lemma strip_pad:
  assumes "list_all is_space a" and "list_all is_space b"
  shows "strip (a @ s @ b) = strip s"
proof (cases "list_all is_space s")
  case True
  with assms have "list_all is_space (a @ s @ b)" by simp
  then have "strip (a @ s @ b) = []" by (rule strip_all_space)
  moreover from True have "strip s = []" by (rule strip_all_space)
  ultimately show ?thesis by simp
next
  case False
  then obtain x where x: "x \<in> set s" "\<not> is_space x"
    by (auto simp: list_all_iff)
  have "lstrip (a @ s @ b) = lstrip (s @ b)"
    using assms(1) by (rule lstrip_pad)
  also have "\<dots> = lstrip s @ b"
    unfolding lstrip_def using x by (rule dropWhile_append1)
  finally have "strip (a @ s @ b) = rstrip (lstrip s @ b)"
    by (simp add: strip_def)
  also have "\<dots> = rstrip (lstrip s)"
    using assms(2) by (rule rstrip_pad)
  finally show ?thesis by (simp add: strip_def)
qed

text \<open>On strings the three identity functions compute the identity of the specification:
  \<^verbatim>\<open>lower().strip()\<close> of the source is \<^verbatim>\<open>lowercase(trim(name))\<close>.\<close>

lemma janitor_generate_lead_id_spec:
  "janitor_generate_lead_id md5 (Str name) (Str phone) = spec_identity md5 name phone"
  by (simp add: janitor_generate_lead_id_def spec_identity_def lower_strip)

lemma gen_id_spec: "gen_id md5 (Str name) (Str phone) = spec_identity md5 name phone"
  by (simp add: gen_id_def spec_identity_def lower_strip)

lemma b2b_generate_lead_id_spec:
  "b2b_generate_lead_id md5 (Str name) (Str phone) = Inr (spec_identity md5 name phone)"
  by (simp add: spec_identity_def lower_strip)

text \<open>The identity is the same for two names that differ in case or in surrounding
  whitespace, and for two phones that differ in surrounding whitespace.\<close>

lemma spec_identity_normalized:
  "lower (strip name) = lower (strip name') \<Longrightarrow> strip phone = strip phone' \<Longrightarrow>
   spec_identity md5 name phone = spec_identity md5 name' phone'"
  by (simp add: spec_identity_def)

lemma spec_identity_case: "spec_identity md5 (lower name) phone = spec_identity md5 name phone"
  by (simp add: spec_identity_def lower_strip [symmetric] lower_idem)

lemma spec_identity_whitespace:
  "list_all is_space a \<Longrightarrow> list_all is_space b \<Longrightarrow>
   spec_identity md5 (a @ name @ b) phone = spec_identity md5 name phone"
  by (simp add: spec_identity_def strip_pad)

text \<open>
  C3. The identity function is total over all inputs, with no failure mode. The janitor
  and the safety function convert both arguments with \<^verbatim>\<open>str\<close> and return for every value
  (a HOL function of \<^typ>\<open>pyval\<close>); the B2B function calls \<^verbatim>\<open>.lower()\<close> and \<^verbatim>\<open>.strip()\<close> on
  its arguments as they come and raises \<^verbatim>\<open>AttributeError\<close> for a phone cell that pandas
  read as \<^verbatim>\<open>nan\<close>, where the janitor function returns the digest of \<^verbatim>\<open>"acme corp|nan"\<close>.
\<close>

theorem b2b_generate_lead_id_raises:
  "b2b_generate_lead_id md5 (Str ''Acme Corp'') NaN = Inl AttributeError \<and>
   janitor_generate_lead_id md5 (Str ''Acme Corp'') NaN = take 12 (md5 ''acme corp|nan'')"
  by (simp add: janitor_generate_lead_id_def lower_def lower_char_def strip_def lstrip_def
        rstrip_def is_space_def)

section \<open>Listing parser\<close>

lemma janitor_parse_listing_Some:
  "janitor_parse_listing md5 today l = Some ld \<Longrightarrow>
   website_of l = Inr (Website_URL ld) \<and> janitor_is_valid_website (Website_URL ld)"
  by (auto simp: janitor_parse_listing_def Let_def make_lead_def split: if_splits sum.splits)

lemma safety_parse_listing_Some:
  "safety_parse_listing md5 today l = Some ld \<Longrightarrow>
   website_of l = Inr (Website_URL ld) \<and> safety_is_valid_website (Website_URL ld)"
  by (auto simp: safety_parse_listing_def Let_def make_lead_def split: if_splits sum.splits)

lemma janitor_parse_listing_None:
  "website_of l = Inr u \<Longrightarrow> \<not> janitor_is_valid_website u \<Longrightarrow>
   janitor_parse_listing md5 today l = None"
  by (auto simp: janitor_parse_listing_def Let_def)

lemma safety_parse_listing_None:
  "website_of l = Inr u \<Longrightarrow> \<not> safety_is_valid_website u \<Longrightarrow>
   safety_parse_listing md5 today l = None"
  by (auto simp: safety_parse_listing_def Let_def)

lemma b2b_parse_listing_keeps:
  "text_or_empty (name_el l) \<noteq> [] \<Longrightarrow> website_of l = Inr u \<Longrightarrow>
   map_option Website_URL (b2b_parse_listing md5 lbl today l) = Some u"
  by (simp add: b2b_parse_listing_def Let_def make_lead_def)

lemma website_of_error: "website_of l = Inl e \<Longrightarrow> e = KeyError"
  by (auto simp: website_of_def split: option.splits)

lemma b2b_parse_listing_None:
  "b2b_parse_listing md5 lbl today l = None \<Longrightarrow>
   text_or_empty (name_el l) = [] \<or> website_of l = Inl KeyError"
  by (auto simp: b2b_parse_listing_def Let_def split: if_splits sum.splits dest: website_of_error)

text \<open>
  C1, as the claim states it, fails for the B2B variant: its \<^verbatim>\<open>parse_listing\<close> has no
  website test, and a fragment without a website link, or with a link to a directory,
  becomes a lead.
\<close>

theorem b2b_parse_listing_keeps_bad_website:
  "map_option Website_URL (b2b_parse_listing (\<lambda>k. k) ''Wholesale'' ''1/2/26'' (acme_listing None))
     = Some [] \<and>
   map_option Website_URL (b2b_parse_listing (\<lambda>k. k) ''Wholesale'' ''1/2/26''
       (acme_listing (Some ''https://www.yelp.com/biz/acme-paper''))) 
     = Some ''https://www.yelp.com/biz/acme-paper''"
  by code_simp

text \<open>
  C1, amended. In the janitor and in the safety variant, \<^verbatim>\<open>parse_listing\<close> returns nothing
  whenever the extracted website URL is empty or fails the website filter of the variant,
  and a lead it returns carries the extracted URL, which passes the filter. The B2B
  variant has no website filter: for a fragment that has a company name and whose website
  link, if there is one, has an \<^verbatim>\<open>href\<close>, its \<^verbatim>\<open>parse_listing\<close> returns a lead with the
  extracted URL, whatever that is.
\<close>

theorem parse_listing_website_filter:
  "(website_of l = Inr u \<and> (u = [] \<or> \<not> janitor_is_valid_website u)
      \<longrightarrow> janitor_parse_listing md5 today l = None) \<and>
   (janitor_parse_listing md5 today l = Some ld
      \<longrightarrow> website_of l = Inr (Website_URL ld) \<and> janitor_is_valid_website (Website_URL ld)) \<and>
   (website_of l = Inr u \<and> (u = [] \<or> \<not> safety_is_valid_website u)
      \<longrightarrow> safety_parse_listing md5 today l = None) \<and>
   (safety_parse_listing md5 today l = Some ld'
      \<longrightarrow> website_of l = Inr (Website_URL ld') \<and> safety_is_valid_website (Website_URL ld')) \<and>
   (text_or_empty (name_el l) \<noteq> [] \<and> website_of l = Inr u
      \<longrightarrow> map_option Website_URL (b2b_parse_listing md5 industry_label today l) = Some u)"
  using janitor_parse_listing_Some [of md5 today l ld] safety_parse_listing_Some [of md5 today l ld']
    janitor_parse_listing_None [of l u md5 today] safety_parse_listing_None [of l u md5 today]
    janitor_is_valid_website_empty safety_is_valid_website_empty
    b2b_parse_listing_keeps [of l u md5 industry_label today]
  by blast

theorem parse_listing_website_filter_witness:
  "janitor_parse_listing (\<lambda>k. k) ''1/2/26'' (acme_listing (Some ''https://www.yelp.com/biz/acme-paper'')) = None \<and>
   safety_parse_listing (\<lambda>k. k) ''1/2/26'' (acme_listing None) = None \<and>
   janitor_is_valid_website ''https://acmepaper.com'' \<and>
   safety_is_valid_website ''https://acmepaper.com'' \<and>
   map_option Website_URL (b2b_parse_listing (\<lambda>k. k) ''Wholesale'' ''1/2/26''
       (acme_listing (Some ''https://www.yellowpages.com/acme''))) = Some ''https://www.yellowpages.com/acme''"
proof -
  have f: "website_of (acme_listing (Some ''https://www.yellowpages.com/acme''))
             = Inr ''https://www.yellowpages.com/acme''"
    by code_simp
  have "text_or_empty (name_el (acme_listing (Some ''https://www.yellowpages.com/acme''))) = ''Acme Paper''"
    by code_simp
  then have g: "text_or_empty (name_el (acme_listing (Some ''https://www.yellowpages.com/acme''))) \<noteq> []"
    by simp
  from parse_listing_website_filter
         [of "acme_listing (Some ''https://www.yellowpages.com/acme'')"
             "''https://www.yellowpages.com/acme''" "\<lambda>k. k" "''1/2/26''" _ _ "''Wholesale''"] f g
  have 4: "map_option Website_URL (b2b_parse_listing (\<lambda>k. k) ''Wholesale'' ''1/2/26''
       (acme_listing (Some ''https://www.yellowpages.com/acme''))) = Some ''https://www.yellowpages.com/acme''"
    by blast
  have a: "website_of (acme_listing (Some ''https://www.yelp.com/biz/acme-paper''))
             = Inr ''https://www.yelp.com/biz/acme-paper''"
    by code_simp
  have b: "\<not> janitor_is_valid_website ''https://www.yelp.com/biz/acme-paper''"
    by code_simp
  have c: "website_of (acme_listing None) = Inr []"
    by code_simp
  have "map_option Website_URL (janitor_parse_listing (\<lambda>k. k) ''1/2/26''
             (acme_listing (Some ''https://acmepaper.com''))) = Some ''https://acmepaper.com''"
    by code_simp
  then obtain ld where d: "janitor_parse_listing (\<lambda>k. k) ''1/2/26''
             (acme_listing (Some ''https://acmepaper.com'')) = Some ld"
     and d': "Website_URL ld = ''https://acmepaper.com''"
    by auto
  have "map_option Website_URL (safety_parse_listing (\<lambda>k. k) ''1/2/26''
             (acme_listing (Some ''https://acmepaper.com''))) = Some ''https://acmepaper.com''"
    by code_simp
  then obtain ld' where e: "safety_parse_listing (\<lambda>k. k) ''1/2/26''
             (acme_listing (Some ''https://acmepaper.com'')) = Some ld'"
     and e': "Website_URL ld' = ''https://acmepaper.com''"
    by auto
  from parse_listing_website_filter
         [of "acme_listing (Some ''https://www.yelp.com/biz/acme-paper'')"
             "''https://www.yelp.com/biz/acme-paper''" "\<lambda>k. k" "''1/2/26''"] a b
  have 1: "janitor_parse_listing (\<lambda>k. k) ''1/2/26''
             (acme_listing (Some ''https://www.yelp.com/biz/acme-paper'')) = None"
    by blast
  from parse_listing_website_filter [of "acme_listing None" "[]" "\<lambda>k. k" "''1/2/26''"] c
  have 2: "safety_parse_listing (\<lambda>k. k) ''1/2/26'' (acme_listing None) = None"
    by blast
  from parse_listing_website_filter
         [of "acme_listing (Some ''https://acmepaper.com'')" _ "\<lambda>k. k" "''1/2/26''" ld ld']
       d e d' e'
  have 3: "janitor_is_valid_website ''https://acmepaper.com'' \<and>
           safety_is_valid_website ''https://acmepaper.com''"
    by metis
  from 1 2 3 4 show ?thesis by blast
qed

section \<open>Email extraction\<close>

lemma in_strip: "x \<in> set g \<Longrightarrow> \<not> is_space x \<Longrightarrow> x \<in> set (strip g)"
proof -
  assume a: "x \<in> set g" "\<not> is_space x"
  then have "sublist [x] g"
    by (metis append_Cons append_Nil split_list sublist_appendI)
  with a(2) have "sublist [x] (strip g)"
    by (intro sublist_strip_keep) simp_all
  then show ?thesis
    using set_mono_sublist by fastforce
qed

lemma email_ok_strip: "email_ok bl g \<Longrightarrow> email_ok bl (strip g)"
proof -
  assume a: "email_ok bl g"
  then have at: "CHR ''@'' \<in> set g"
    by (simp add: email_ok_def split: if_splits)
  have "\<not> is_space CHR ''@''" by (simp add: is_space_def)
  with at have at': "CHR ''@'' \<in> set (strip g)" by (rule in_strip)
  have "\<not> list_ex (\<lambda>x. sublist x (lower (strip g))) bl"
  proof
    assume "list_ex (\<lambda>x. sublist x (lower (strip g))) bl"
    then obtain x where x: "x \<in> set bl" "sublist x (lower (strip g))"
      by (auto simp: list_ex_iff)
    then have "sublist x (lower g)"
      by (simp add: lower_strip sublist_strip_mono)
    with x(1) a show False
      by (auto simp: email_ok_def list_ex_iff split: if_splits)
  qed
  with at' show ?thesis
    by (auto simp: email_ok_def)
qed

lemma email_ok_not_BLOCKED: "email_ok bl e \<Longrightarrow> e \<noteq> BLOCKED"
  by (auto simp: email_ok_def BLOCKED_def split: if_splits)

lemma email_ok_nonempty: "email_ok bl e \<Longrightarrow> e \<noteq> []"
  by (auto simp: email_ok_def)

lemma find_valid: "find valid xs = Some e \<Longrightarrow> valid e"
  by (auto simp: find_Some_iff)

lemma source_scan_valid: "source_scan valid src = Some e \<Longrightarrow> valid e"
  by (auto simp: source_scan_def dest: find_valid split: option.splits if_splits)

lemma contact_pages_valid:
  assumes "\<And>src e. scan src = Some e \<Longrightarrow> valid e"
  shows "contact_pages scan st base paths = [] \<or> valid (contact_pages scan st base paths)"
  using assms by (induction paths) (auto split: option.splits)

lemma website_cascade_valid:
  "website_cascade valid st url = [] \<or> valid (website_cascade valid st url)"
proof (cases "st (with_scheme url)")
  case None
  then show ?thesis by (simp add: website_cascade_def)
next
  case (Some pg)
  show ?thesis
  proof (cases "list_ex (\<lambda>x. sublist x (lower (title pg))) [''404'', ''not found'', ''error'', ''denied'']")
    case True
    with Some show ?thesis by (simp add: website_cascade_def)
  next
    case False
    show ?thesis
    proof (cases "source_scan valid (page_source pg)")
      case None
      with Some False have "website_cascade valid st url =
          contact_pages (source_scan valid) st (rstrip_slash (with_scheme url))
            [''/contact'', ''/contact-us'', ''/about'', ''/about-us'', ''/contactus'']"
        by (simp add: website_cascade_def)
      then show ?thesis
        using contact_pages_valid [of "source_scan valid" valid st] source_scan_valid [of valid]
        by metis
    next
      case (Some e)
      with \<open>st (with_scheme url) = Some pg\<close> False have "website_cascade valid st url = e"
        by (simp add: website_cascade_def)
      with Some show ?thesis
        by (simp add: source_scan_valid)
    qed
  qed
qed

lemma janitor_extract_email_from_website_valid:
  "janitor_extract_email_from_website st url = [] \<or>
   janitor_is_valid_email (janitor_extract_email_from_website st url)"
  using website_cascade_valid [of janitor_is_valid_email st url]
  by (simp add: janitor_extract_email_from_website_def)

lemma b2b_extract_email_from_website_valid:
  "b2b_extract_email_from_website st url = [] \<or>
   b2b_is_valid_email (b2b_extract_email_from_website st url)"
  using website_cascade_valid [of b2b_is_valid_email st url]
  by (simp add: b2b_extract_email_from_website_def)

lemma link_scan_valid: "link_scan valid hs = Some e \<Longrightarrow> valid e"
  by (induction hs) (auto split: if_splits)

lemma detail_methods_valid:
  assumes "detail_methods valid dw src = Some e"
  shows "valid e"
proof -
  define m1 where "m1 = (case mailto_search src of
              Some g \<Rightarrow> if valid (strip g) then Some (strip g) else None
            | None \<Rightarrow> None)"
  define m2 where "m2 = (case email_elements dw of Some hs \<Rightarrow> link_scan valid hs | None \<Rightarrow> None)"
  define m3 where "m3 = (case mailto_links dw of Some hs \<Rightarrow> link_scan valid hs | None \<Rightarrow> None)"
  define m4 where "m4 = link_scan valid (soup_links dw)"
  define m5 where "m5 = find valid (email_findall src)"
  have eq: "detail_methods valid dw src =
      (case m1 of Some x \<Rightarrow> Some x | None \<Rightarrow>
       case m2 of Some x \<Rightarrow> Some x | None \<Rightarrow>
       case m3 of Some x \<Rightarrow> Some x | None \<Rightarrow>
       case m4 of Some x \<Rightarrow> Some x | None \<Rightarrow> m5)"
    unfolding detail_methods_def m1_def m2_def m3_def m4_def m5_def by (rule refl)
  have v1: "m1 = Some e \<Longrightarrow> valid e"
    by (auto simp: m1_def split: option.splits if_splits)
  have v2: "m2 = Some e \<Longrightarrow> valid e"
    by (auto simp: m2_def split: option.splits dest: link_scan_valid)
  have v3: "m3 = Some e \<Longrightarrow> valid e"
    by (auto simp: m3_def split: option.splits dest: link_scan_valid)
  have v4: "m4 = Some e \<Longrightarrow> valid e"
    by (auto simp: m4_def dest: link_scan_valid)
  have v5: "m5 = Some e \<Longrightarrow> valid e"
    by (auto simp: m5_def dest: find_valid)
  from assms have "m1 = Some e \<or> m2 = Some e \<or> m3 = Some e \<or> m4 = Some e \<or> m5 = Some e"
    unfolding eq by (cases m1; cases m2; cases m3; cases m4) simp_all
  with v1 v2 v3 v4 v5 show ?thesis by blast
qed

lemma extract_from_detail_shape:
  assumes w: "\<And>u. fromsite u = [] \<or> valid (fromsite u)"
  shows "(if \<not> ok then []
      else if blk
      then (if c then (let email = fromsite url in if email \<noteq> [] then email else BLOCKED)
            else BLOCKED)
      else case scrolled of
             None \<Rightarrow> []
           | Some src \<Rightarrow>
               (case detail_methods valid dw src of
                  Some email \<Rightarrow> email
                | None \<Rightarrow> if c then fromsite url else [])) = r
    \<Longrightarrow> r = [] \<or> r = BLOCKED \<or> valid r"
proof -
  assume a: "(if \<not> ok then []
      else if blk
      then (if c then (let email = fromsite url in if email \<noteq> [] then email else BLOCKED)
            else BLOCKED)
      else case scrolled of
             None \<Rightarrow> []
           | Some src \<Rightarrow>
               (case detail_methods valid dw src of
                  Some email \<Rightarrow> email
                | None \<Rightarrow> if c then fromsite url else [])) = r"
  show ?thesis
  proof (cases "ok")
    case False
    with a show ?thesis by simp
  next
    case True
    show ?thesis
    proof (cases blk)
      case True
      with \<open>ok\<close> a w [of url] show ?thesis
        by (cases c) (auto simp: Let_def split: if_splits)
    next
      case False
      show ?thesis
      proof (cases scrolled)
        case None
        with \<open>ok\<close> False a show ?thesis by simp
      next
        case (Some src)
        show ?thesis
        proof (cases "detail_methods valid dw src")
          case None
          with Some \<open>ok\<close> False a w [of url] show ?thesis
            by (cases c) auto
        next
          case (Some e)
          then have "valid e" by (rule detail_methods_valid)
          with Some \<open>scrolled = Some src\<close> \<open>ok\<close> False a show ?thesis by auto
        qed
      qed
    qed
  qed
qed

lemma janitor_extract_email_from_detail_cases:
  "janitor_extract_email_from_detail dw url = [] \<or>
   janitor_extract_email_from_detail dw url = BLOCKED \<or>
   janitor_is_valid_email (janitor_extract_email_from_detail dw url)"
  by (rule extract_from_detail_shape
        [where fromsite = "janitor_extract_email_from_website (site dw)",
         OF janitor_extract_email_from_website_valid])
     (simp add: janitor_extract_email_from_detail_def)

lemma b2b_extract_email_from_detail_cases:
  "b2b_extract_email_from_detail dw url = [] \<or>
   b2b_extract_email_from_detail dw url = BLOCKED \<or>
   b2b_is_valid_email (b2b_extract_email_from_detail dw url)"
  by (rule extract_from_detail_shape
        [where fromsite = "b2b_extract_email_from_website (site dw)",
         OF b2b_extract_email_from_website_valid])
     (simp add: b2b_extract_email_from_detail_def)

lemma safety_scan_valid: "safety_scan src = Some e \<Longrightarrow> valid_email e"
  by (auto simp: safety_scan_def valid_email_def dest: find_valid email_ok_strip
           split: option.splits if_splits)

lemma get_email_from_site_valid:
  "get_email_from_site st url = [] \<or> valid_email (get_email_from_site st url)"
proof (cases "url \<noteq> [] \<and> safety_is_valid_website url")
  case False
  then show ?thesis by (auto simp: get_email_from_site_def)
next
  case True
  show ?thesis
  proof (cases "st (with_scheme url)")
    case None
    with True show ?thesis by (simp add: get_email_from_site_def)
  next
    case (Some pg)
    show ?thesis
    proof (cases "safety_scan (page_source pg)")
      case None
      with Some True have "get_email_from_site st url =
          contact_pages safety_scan st (rstrip_slash (with_scheme url))
            [''/contact'', ''/contact-us'', ''/about'']"
        by (simp add: get_email_from_site_def)
      then show ?thesis
        using contact_pages_valid [of safety_scan valid_email st] safety_scan_valid
        by metis
    next
      case (Some e)
      with \<open>st (with_scheme url) = Some pg\<close> True have "get_email_from_site st url = e"
        by (simp add: get_email_from_site_def)
      with Some show ?thesis by (simp add: safety_scan_valid)
    qed
  qed
qed

lemma get_email_cases:
  "get_email dw url = [] \<or> get_email dw url = BLOCKED \<or> valid_email (get_email dw url)"
proof (cases "detail_get_ok dw")
  case False
  then show ?thesis by (simp add: get_email_def)
next
  case True
  show ?thesis
  proof (cases "safety_is_blocked (source_loaded dw)")
    case True
    with \<open>detail_get_ok dw\<close> get_email_from_site_valid [of "site dw" url] show ?thesis
      by (auto simp: get_email_def)
  next
    case False
    show ?thesis
    proof (cases "source_scrolled dw")
      case None
      with True False show ?thesis by (simp add: get_email_def)
    next
      case (Some src)
      show ?thesis
      proof (cases "safety_scan src")
        case None
        with Some True False get_email_from_site_valid [of "site dw" url] show ?thesis
          by (auto simp: get_email_def)
      next
        case (Some e)
        then have "valid_email e" by (rule safety_scan_valid)
        with Some \<open>source_scrolled dw = Some src\<close> True False show ?thesis
          by (simp add: get_email_def)
      qed
    qed
  qed
qed


lemma janitor_blocked_only_without_substitute:
  assumes "janitor_extract_email_from_detail dw url = BLOCKED"
  shows "detail_get_ok dw \<and> is_blocked (source_loaded dw) \<and>
         (url = [] \<or> \<not> janitor_is_valid_website url \<or>
          janitor_extract_email_from_website (site dw) url = [])"
proof -
  have nb: "[] \<noteq> BLOCKED" by (simp add: BLOCKED_def)
  have ok: "detail_get_ok dw"
  proof (rule ccontr)
    assume "\<not> detail_get_ok dw"
    then have "janitor_extract_email_from_detail dw url = []"
      by (simp add: janitor_extract_email_from_detail_def)
    with assms nb show False by simp
  qed
  have blk: "is_blocked (source_loaded dw)"
  proof (rule ccontr)
    assume n: "\<not> is_blocked (source_loaded dw)"
    show False
    proof (cases "source_scrolled dw")
      case None
      with ok n assms nb show False by (simp add: janitor_extract_email_from_detail_def)
    next
      case (Some src)
      show False
      proof (cases "detail_methods janitor_is_valid_email dw src")
        case None
        with Some ok n assms have "janitor_extract_email_from_website (site dw) url = BLOCKED \<or> [] = BLOCKED"
          by (auto simp: janitor_extract_email_from_detail_def split: if_splits)
        with nb janitor_extract_email_from_website_valid [of "site dw" url] show False
          by (auto simp: janitor_is_valid_email_def dest: email_ok_not_BLOCKED)
      next
        case (Some e)
        then have "janitor_is_valid_email e" by (rule detail_methods_valid)
        moreover from Some \<open>source_scrolled dw = Some src\<close> ok n assms have "e = BLOCKED"
          by (simp add: janitor_extract_email_from_detail_def)
        ultimately show False
          by (auto simp: janitor_is_valid_email_def dest: email_ok_not_BLOCKED)
      qed
    qed
  qed
  have "url = [] \<or> \<not> janitor_is_valid_website url \<or>
          janitor_extract_email_from_website (site dw) url = []"
  proof (rule ccontr)
    assume "\<not> ?thesis"
    then have c: "url \<noteq> []" "janitor_is_valid_website url"
      "janitor_extract_email_from_website (site dw) url \<noteq> []" by auto
    with ok blk have "janitor_extract_email_from_detail dw url
        = janitor_extract_email_from_website (site dw) url"
      by (simp add: janitor_extract_email_from_detail_def Let_def)
    with assms c(3) janitor_extract_email_from_website_valid [of "site dw" url] show False
      by (auto simp: janitor_is_valid_email_def dest: email_ok_not_BLOCKED)
  qed
  with ok blk show ?thesis by blast
qed

lemma janitor_blocked_substitute:
  assumes "detail_get_ok dw" and "is_blocked (source_loaded dw)" and "url \<noteq> []"
    and "janitor_is_valid_website url"
    and "janitor_extract_email_from_website (site dw) url \<noteq> []"
  shows "janitor_extract_email_from_detail dw url = janitor_extract_email_from_website (site dw) url \<and>
         janitor_is_valid_email (janitor_extract_email_from_detail dw url) \<and>
         janitor_extract_email_from_detail dw url \<noteq> BLOCKED"
proof -
  from assms have eq: "janitor_extract_email_from_detail dw url
        = janitor_extract_email_from_website (site dw) url"
    by (simp add: janitor_extract_email_from_detail_def Let_def)
  with assms(5) janitor_extract_email_from_website_valid [of "site dw" url]
  have v: "janitor_is_valid_email (janitor_extract_email_from_detail dw url)" by auto
  then have "janitor_extract_email_from_detail dw url \<noteq> BLOCKED"
    by (auto simp: janitor_is_valid_email_def dest: email_ok_not_BLOCKED)
  with eq v show ?thesis by simp
qed

lemma safety_blocked_only_without_substitute:
  assumes "get_email dw url = BLOCKED"
  shows "detail_get_ok dw \<and> safety_is_blocked (source_loaded dw) \<and>
         (url = [] \<or> \<not> safety_is_valid_website url)"
proof -
  have nb: "[] \<noteq> BLOCKED" by (simp add: BLOCKED_def)
  have site_nb: "get_email_from_site (site dw) url \<noteq> BLOCKED"
    using get_email_from_site_valid [of "site dw" url] nb
    by (auto simp: valid_email_def dest: email_ok_not_BLOCKED)
  have ok: "detail_get_ok dw"
  proof (rule ccontr)
    assume "\<not> detail_get_ok dw"
    then have "get_email dw url = []"
      by (simp add: get_email_def)
    with assms nb show False by simp
  qed
  have blk: "safety_is_blocked (source_loaded dw)"
  proof (rule ccontr)
    assume n: "\<not> safety_is_blocked (source_loaded dw)"
    show False
    proof (cases "source_scrolled dw")
      case None
      with ok n assms nb show False by (simp add: get_email_def)
    next
      case (Some src)
      show False
      proof (cases "safety_scan src")
        case None
        with Some ok n assms have "get_email_from_site (site dw) url = BLOCKED \<or> [] = BLOCKED"
          by (auto simp: get_email_def split: if_splits)
        with nb site_nb show False by simp
      next
        case (Some e)
        then have "valid_email e" by (rule safety_scan_valid)
        moreover from Some \<open>source_scrolled dw = Some src\<close> ok n assms have "e = BLOCKED"
          by (simp add: get_email_def)
        ultimately show False
          by (auto simp: valid_email_def dest: email_ok_not_BLOCKED)
      qed
    qed
  qed
  have "url = [] \<or> \<not> safety_is_valid_website url"
  proof (rule ccontr)
    assume "\<not> ?thesis"
    with ok blk have "get_email dw url = get_email_from_site (site dw) url"
      by (simp add: get_email_def)
    with assms site_nb show False by simp
  qed
  with ok blk show ?thesis by blast
qed

lemma safety_blocked_substitute:
  assumes "detail_get_ok dw" and "safety_is_blocked (source_loaded dw)" and "url \<noteq> []"
    and "safety_is_valid_website url"
    and "get_email_from_site (site dw) url \<noteq> []"
  shows "get_email dw url = get_email_from_site (site dw) url \<and>
         valid_email (get_email dw url) \<and> get_email dw url \<noteq> BLOCKED"
proof -
  from assms have eq: "get_email dw url = get_email_from_site (site dw) url"
    by (simp add: get_email_def)
  with assms(5) get_email_from_site_valid [of "site dw" url]
  have v: "valid_email (get_email dw url)" by auto
  then have "get_email dw url \<noteq> BLOCKED"
    by (auto simp: valid_email_def dest: email_ok_not_BLOCKED)
  with eq v show ?thesis by simp
qed

text \<open>
  C7. If the fetched detail page matches the block heuristics, and a company website is
  given, passes the website filter and yields an email, then the extraction returns that
  email, which is valid and is not the blocked sentinel; and the sentinel is returned only
  for a page that matches the block heuristics when no substitute email was recovered
  (janitor: no website, a website failing the filter, or no email from it; safety: no
  website or a website failing the filter). Janitor (\<^verbatim>\<open>extract_email_from_detail\<close>) and
  safety (\<^verbatim>\<open>get_email\<close>).
\<close>

theorem blocked_detail_page_substitute_email:
  "(detail_get_ok dw \<and> is_blocked (source_loaded dw) \<and> url \<noteq> [] \<and>
    janitor_is_valid_website url \<and> janitor_extract_email_from_website (site dw) url \<noteq> []
      \<longrightarrow> janitor_extract_email_from_detail dw url = janitor_extract_email_from_website (site dw) url \<and>
          janitor_is_valid_email (janitor_extract_email_from_detail dw url) \<and>
          janitor_extract_email_from_detail dw url \<noteq> BLOCKED) \<and>
   (janitor_extract_email_from_detail dw url = BLOCKED
      \<longrightarrow> detail_get_ok dw \<and> is_blocked (source_loaded dw) \<and>
          (url = [] \<or> \<not> janitor_is_valid_website url \<or>
           janitor_extract_email_from_website (site dw) url = [])) \<and>
   (detail_get_ok dw \<and> safety_is_blocked (source_loaded dw) \<and> url \<noteq> [] \<and>
    safety_is_valid_website url \<and> get_email_from_site (site dw) url \<noteq> []
      \<longrightarrow> get_email dw url = get_email_from_site (site dw) url \<and>
          valid_email (get_email dw url) \<and> get_email dw url \<noteq> BLOCKED) \<and>
   (get_email dw url = BLOCKED
      \<longrightarrow> detail_get_ok dw \<and> safety_is_blocked (source_loaded dw) \<and>
          (url = [] \<or> \<not> safety_is_valid_website url))"
  using janitor_blocked_substitute [of dw url] janitor_blocked_only_without_substitute [of dw url]
    safety_blocked_substitute [of dw url] safety_blocked_only_without_substitute [of dw url]
  by blast

theorem blocked_detail_page_substitute_email_witness:
  "janitor_extract_email_from_detail (blocked_detail acme_site) ''https://acme.com'' = ''info@acme.com'' \<and>
   get_email (blocked_detail acme_site) ''https://acme.com'' = ''info@acme.com'' \<and>
   janitor_extract_email_from_website acme_site [] = [] \<and>
   janitor_extract_email_from_detail (blocked_detail acme_site) [] = BLOCKED"
proof -
  have h1: "detail_get_ok (blocked_detail acme_site)" by code_simp
  have h2: "is_blocked (source_loaded (blocked_detail acme_site))" by code_simp
  have h3: "safety_is_blocked (source_loaded (blocked_detail acme_site))" by code_simp
  have h4: "janitor_is_valid_website ''https://acme.com''" by code_simp
  have h5: "safety_is_valid_website ''https://acme.com''" by code_simp
  have h6: "janitor_extract_email_from_website (site (blocked_detail acme_site)) ''https://acme.com''
              = ''info@acme.com''" by code_simp
  have h7: "get_email_from_site (site (blocked_detail acme_site)) ''https://acme.com''
              = ''info@acme.com''" by code_simp
  have h8: "janitor_extract_email_from_detail (blocked_detail acme_site) [] = BLOCKED" by code_simp
  have h9: "janitor_extract_email_from_website acme_site [] = []" by code_simp
  from blocked_detail_page_substitute_email [of "blocked_detail acme_site" "''https://acme.com''"]
    h1 h2 h3 h4 h5 h6 h7
  have "janitor_extract_email_from_detail (blocked_detail acme_site) ''https://acme.com'' = ''info@acme.com'' \<and>
        get_email (blocked_detail acme_site) ''https://acme.com'' = ''info@acme.com''"
    by simp
  with h8 h9 show ?thesis by simp
qed

section \<open>Pagination controller: loading, deduplication and the email loop\<close>

lemma upt_3: "[0..<MAX_RETRIES] = [0, 1, 2]"
  by (simp add: MAX_RETRIES_def upt_rec)

lemma load_page_first: "nav_ok pw 0 \<Longrightarrow> load_page pw p = (True, [Nav p, Sleep 2])"
  by (simp add: load_page_def upt_3)

lemma load_page_second:
  "\<not> nav_ok pw 0 \<Longrightarrow> nav_ok pw 1 \<Longrightarrow> load_page pw p = (True, [Nav p, Sleep 5, Nav p, Sleep 2])"
  unfolding load_page_def upt_3 by (simp add: MAX_RETRIES_def)

lemma load_page_third:
  "\<not> nav_ok pw 0 \<Longrightarrow> \<not> nav_ok pw 1 \<Longrightarrow> nav_ok pw 2 \<Longrightarrow>
   load_page pw p = (True, [Nav p, Sleep 5, Nav p, Sleep 5, Nav p, Sleep 2])"
  unfolding load_page_def upt_3 by (simp add: MAX_RETRIES_def)

lemma load_page_exhausted:
  "\<not> nav_ok pw 0 \<Longrightarrow> \<not> nav_ok pw 1 \<Longrightarrow> \<not> nav_ok pw 2 \<Longrightarrow>
   load_page pw p = (False, [Nav p, Sleep 5, Nav p, Sleep 5, Nav p])"
  unfolding load_page_def upt_3 by (simp add: MAX_RETRIES_def)

lemma load_attempts_events:
  "e \<in> set (snd (load_attempts pw p as)) \<Longrightarrow> e = Nav p \<or> e = Sleep 2 \<or> e = Sleep 5"
  by (induction as) (auto split: if_splits)

lemma load_page_events:
  "e \<in> set (snd (load_page pw p)) \<Longrightarrow> e = Nav p \<or> e = Sleep 2 \<or> e = Sleep 5"
  unfolding load_page_def by (rule load_attempts_events)

lemma filter_dupes_snd:
  "snd (filter_dupes ex loc ls) = loc \<union> set (map lead_id (fst (filter_dupes ex loc ls)))"
  by (induction ls arbitrary: loc) auto

lemma filter_dupes_fresh:
  "l \<in> set (fst (filter_dupes ex loc ls)) \<Longrightarrow> l \<in> set ls \<and> lead_id l \<notin> ex \<and> lead_id l \<notin> loc"
  by (induction ls arbitrary: loc) (auto split: if_splits)

lemma filter_dupes_distinct: "distinct (map lead_id (fst (filter_dupes ex loc ls)))"
proof (induction ls arbitrary: loc)
  case Nil
  then show ?case by simp
next
  case (Cons l ls)
  show ?case
  proof (cases "lead_id l \<notin> ex \<and> lead_id l \<notin> loc")
    case True
    have "lead_id l \<notin> set (map lead_id (fst (filter_dupes ex (insert (lead_id l) loc) ls)))"
    proof
      assume "lead_id l \<in> set (map lead_id (fst (filter_dupes ex (insert (lead_id l) loc) ls)))"
      then obtain x where x: "x \<in> set (fst (filter_dupes ex (insert (lead_id l) loc) ls))"
          and eq: "lead_id x = lead_id l"
        by auto
      from filter_dupes_fresh [OF x] eq show False by simp
    qed
    with True Cons [of "insert (lead_id l) loc"] show ?thesis by simp
  next
    case False
    with Cons [of loc] show ?thesis by auto
  qed
qed

lemma filter_dupes_all_known:
  "list_all (\<lambda>l. lead_id l \<in> ex \<union> loc) ls \<Longrightarrow> filter_dupes ex loc ls = ([], loc)"
  by (induction ls) auto

lemma filter_dupes_accepts:
  "l \<in> set ls \<Longrightarrow> lead_id l \<notin> ex \<Longrightarrow> lead_id l \<notin> loc \<Longrightarrow>
   lead_id l \<in> set (map lead_id (fst (filter_dupes ex loc ls)))"
proof (induction ls arbitrary: loc)
  case Nil
  then show ?case by simp
next
  case (Cons a ls)
  show ?case
  proof (cases "lead_id a \<notin> ex \<and> lead_id a \<notin> loc")
    case True
    show ?thesis
    proof (cases "lead_id l = lead_id a")
      case True
      with \<open>lead_id a \<notin> ex \<and> lead_id a \<notin> loc\<close> show ?thesis by simp
    next
      case False
      with Cons.prems have "l \<in> set ls" "lead_id l \<notin> insert (lead_id a) loc" by auto
      with Cons.IH [of "insert (lead_id a) loc"] Cons.prems(2) True show ?thesis by simp
    qed
  next
    case False
    with Cons.prems have "l \<in> set ls" by auto
    with Cons.IH [of loc] Cons.prems False show ?thesis by auto
  qed
qed

lemma fetch_emails_leads:
  assumes "\<And>dw u. ext dw u = [] \<or> ext dw u = BLOCKED \<or> valid (ext dw u)"
  shows "list_all2 (email_set valid) ls (fst (fetch_emails ext dws i ls b))"
proof (induction ls arbitrary: i b)
  case Nil
  then show ?case by simp
next
  case (Cons l ls)
  have r: "email_set valid l l" by (simp add: email_set_def)
  show ?case
  proof (cases "ext (dws i) (Website_URL l) = BLOCKED")
    case True
    with Cons [of "i + 1"] r show ?thesis
      by (simp add: Let_def case_prod_beta)
  next
    case False
    show ?thesis
    proof (cases "ext (dws i) (Website_URL l) = []")
      case True
      with False Cons [of "i + 1" b] r show ?thesis
        by (simp add: Let_def case_prod_beta)
    next
      case nonempty: False
      with False assms [of "dws i" "Website_URL l"] have "valid (ext (dws i) (Website_URL l))"
        by simp
      then have "email_set valid l (l\<lparr>Email_Address := ext (dws i) (Website_URL l)\<rparr>)"
        by (auto simp: email_set_def)
      with False nonempty Cons [of "i + 1" b] show ?thesis
        by (simp add: Let_def case_prod_beta)
    qed
  qed
qed

lemma fetch_emails_events:
  "e \<in> set (snd (snd (fetch_emails ext dws i ls b))) \<Longrightarrow> e = Quit \<or> e = Sleep 10 \<or> e = Create"
  by (induction ls arbitrary: i b) (auto simp: Let_def case_prod_beta split: if_splits)

lemma fetch_emails_Nil_iff: "fst (fetch_emails ext dws i ls b) = [] \<longleftrightarrow> ls = []"
  by (cases ls) (simp_all add: Let_def case_prod_beta)


lemma pb_raise:
  "page_listings v pw page = None \<Longrightarrow>
   page_body v pw ex page st = Raise (st\<lparr>trace := trace st @ snd (load_page pw page)\<rparr>)"
  by (simp add: page_body_def page_listings_def Let_def)

lemma pb_break:
  "page_listings v pw page = Some [] \<Longrightarrow>
   page_body v pw ex page st = Break (st\<lparr>trace := trace st @ snd (load_page pw page)\<rparr>)"
  by (simp add: page_body_def page_listings_def Let_def)

lemma pb_dupes:
  "page_listings v pw page = Some ls \<Longrightarrow> ls \<noteq> [] \<Longrightarrow>
   fst (filter_dupes ex (local_ids st) ls) = [] \<Longrightarrow>
   page_body v pw ex page st =
     Next (st\<lparr>trace := trace st @ snd (load_page pw page),
              local_ids := snd (filter_dupes ex (local_ids st) ls)\<rparr>)"
  by (simp add: page_body_def page_listings_def Let_def)

lemma pb_new:
  assumes "page_listings v pw page = Some ls"
    and "fst (filter_dupes ex (local_ids st) ls) \<noteq> []"
    and "fetch_emails (extract_email v) (detail pw) 0 (fst (filter_dupes ex (local_ids st) ls))
           (blocked_count st) = (new, blocked, ev)"
    and "st3 = st\<lparr>trace := trace st @ snd (load_page pw page) @ ev,
                  local_ids := snd (filter_dupes ex (local_ids st) ls),
                  all_leads := all_leads st @ new,
                  new_leads_count := new_leads_count st + length new,
                  blocked_count := blocked\<rparr>"
    and "restart = (if page < MAX_PAGES v then [Quit, Sleep 3, Create] else [])"
  shows "page_body v pw ex page st =
     (case save_rows (keep v) (all_leads st @ new) of
        None \<Rightarrow> Next (st3\<lparr>trace := trace st3 @ restart\<rparr>)
      | Some rows \<Rightarrow>
          if save_ok pw
          then Next (st3\<lparr>artifact := rows, trace := trace st3 @ [Save rows] @ restart\<rparr>)
          else Raise (st3\<lparr>trace := trace st3 @ [SaveError]\<rparr>))"
proof -
  from assms(2) have "ls \<noteq> []" by auto
  with assms show ?thesis
    by (simp add: page_body_def page_listings_def Let_def split: option.splits)
qed

section \<open>Pagination controller: the page loop of the janitor and B2B variants\<close>

lemma page_body_cases [case_names Raises Empty Dupes New]:
  obtains
    (Raises) "page_listings v pw page = None"
      "page_body v pw ex page st = Raise (st\<lparr>trace := trace st @ snd (load_page pw page)\<rparr>)"
  | (Empty) "page_listings v pw page = Some []"
      "page_body v pw ex page st = Break (st\<lparr>trace := trace st @ snd (load_page pw page)\<rparr>)"
  | (Dupes) ls where "page_listings v pw page = Some ls" "ls \<noteq> []"
      "fst (filter_dupes ex (local_ids st) ls) = []"
      "page_body v pw ex page st =
         Next (st\<lparr>trace := trace st @ snd (load_page pw page),
                  local_ids := snd (filter_dupes ex (local_ids st) ls)\<rparr>)"
  | (New) ls new blocked ev st3 restart where "page_listings v pw page = Some ls"
      "fst (filter_dupes ex (local_ids st) ls) \<noteq> []"
      "fetch_emails (extract_email v) (detail pw) 0 (fst (filter_dupes ex (local_ids st) ls))
           (blocked_count st) = (new, blocked, ev)"
      "st3 = st\<lparr>trace := trace st @ snd (load_page pw page) @ ev,
                  local_ids := snd (filter_dupes ex (local_ids st) ls),
                  all_leads := all_leads st @ new,
                  new_leads_count := new_leads_count st + length new,
                  blocked_count := blocked\<rparr>"
      "restart = (if page < MAX_PAGES v then [Quit, Sleep 3, Create] else [])"
      "page_body v pw ex page st =
         (case save_rows (keep v) (all_leads st @ new) of
            None \<Rightarrow> Next (st3\<lparr>trace := trace st3 @ restart\<rparr>)
          | Some rows \<Rightarrow>
              if save_ok pw
              then Next (st3\<lparr>artifact := rows, trace := trace st3 @ [Save rows] @ restart\<rparr>)
              else Raise (st3\<lparr>trace := trace st3 @ [SaveError]\<rparr>))"
proof (cases "page_listings v pw page")
  case None
  then show ?thesis using Raises pb_raise by blast
next
  case (Some ls)
  show ?thesis
  proof (cases "ls = []")
    case True
    with Some show ?thesis using Empty pb_break by blast
  next
    case False
    show ?thesis
    proof (cases "fst (filter_dupes ex (local_ids st) ls) = []")
      case True
      with Some False show ?thesis using Dupes pb_dupes by blast
    next
      case nonempty: False
      obtain new blocked ev where f:
        "fetch_emails (extract_email v) (detail pw) 0 (fst (filter_dupes ex (local_ids st) ls))
           (blocked_count st) = (new, blocked, ev)"
        by (metis prod_cases3)
      from pb_new [OF Some nonempty f refl refl] New [OF Some nonempty f refl refl]
      show ?thesis by blast
    qed
  qed
qed

lemma restart_events: "Nav q \<notin> set (if c then [Quit, Sleep 3, Create] else [])"
  by simp

lemma page_body_navs:
  "\<exists>evs. trace (flow_state (page_body v pw ex page st)) = trace st @ evs \<and>
         (\<forall>q. Nav q \<in> set evs \<longrightarrow> q = page)"
proof (cases rule: page_body_cases [where v=v and pw=pw and page=page and ex=ex and st=st])
  case Raises
  then show ?thesis using load_page_events [of _ pw page] by fastforce
next
  case Empty
  then show ?thesis using load_page_events [of _ pw page] by fastforce
next
  case (Dupes ls)
  then show ?thesis using load_page_events [of _ pw page] by fastforce
next
  case (New ls new blocked ev st3 restart)
  have ev: "\<And>q. Nav q \<notin> set ev"
    using fetch_emails_events [of _ "extract_email v" "detail pw" 0
        "fst (filter_dupes ex (local_ids st) ls)" "blocked_count st"] New(3)
    by fastforce
  have lp: "\<And>q. Nav q \<in> set (snd (load_page pw page)) \<Longrightarrow> q = page"
    using load_page_events [of _ pw page] by fastforce
  have rs: "\<And>q. Nav q \<notin> set restart" by (simp add: New(5))
  show ?thesis
  proof (cases "save_rows (keep v) (all_leads st @ new)")
    case None
    with New(4,6) have "trace (flow_state (page_body v pw ex page st))
        = trace st @ (snd (load_page pw page) @ ev @ restart)" by simp
    with ev lp rs show ?thesis by (metis Un_iff set_append)
  next
    case (Some rows)
    show ?thesis
    proof (cases "save_ok pw")
      case True
      with Some New(4,6) have "trace (flow_state (page_body v pw ex page st))
        = trace st @ (snd (load_page pw page) @ ev @ [Save rows] @ restart)" by simp
      moreover have "\<And>q. Nav q \<notin> set [Save rows]" by simp
      ultimately show ?thesis using ev lp rs by (metis Un_iff set_append)
    next
      case False
      with Some New(4,6) have "trace (flow_state (page_body v pw ex page st))
        = trace st @ (snd (load_page pw page) @ ev @ [SaveError])" by simp
      moreover have "\<And>q. Nav q \<notin> set [SaveError]" by simp
      ultimately show ?thesis using ev lp by (metis Un_iff set_append)
    qed
  qed
qed

lemma pages_loop_navs_in:
  "Nav q \<in> set (trace (snd (pages_loop v w ex ps st))) \<Longrightarrow> Nav q \<in> set (trace st) \<or> q \<in> set ps"
proof (induction ps arbitrary: st)
  case Nil
  then show ?case by simp
next
  case (Cons x xs)
  obtain evs where evs: "trace (flow_state (page_body v (w x) ex x st)) = trace st @ evs"
      "\<And>q. Nav q \<in> set evs \<Longrightarrow> q = x"
    using page_body_navs [of v "w x" ex x st] by blast
  show ?case
  proof (cases "page_body v (w x) ex x st")
    case (Next st')
    with Cons.prems have "Nav q \<in> set (trace (snd (pages_loop v w ex xs st')))" by simp
    from Cons.IH [OF this] Next evs show ?thesis by auto
  next
    case (Break st')
    with Cons.prems evs show ?thesis by auto
  next
    case (Raise st')
    with Cons.prems evs show ?thesis by auto
  qed
qed

lemma pages_loop_stops:
  assumes "page_listings v (w p) p = Some []" and "sorted ps" and "p \<in> set ps"
    and "Nav q \<in> set (trace (snd (pages_loop v w ex ps st)))"
  shows "Nav q \<in> set (trace st) \<or> q \<le> p"
  using assms(2-)
proof (induction ps arbitrary: st)
  case Nil
  then show ?case by simp
next
  case (Cons x xs)
  obtain evs where evs: "trace (flow_state (page_body v (w x) ex x st)) = trace st @ evs"
      "\<And>q. Nav q \<in> set evs \<Longrightarrow> q = x"
    using page_body_navs [of v "w x" ex x st] by blast
  show ?case
  proof (cases "x = p")
    case True
    with assms(1) have "page_body v (w x) ex x st
        = Break (st\<lparr>trace := trace st @ snd (load_page (w x) x)\<rparr>)"
      by (simp add: pb_break)
    with Cons.prems(3) evs True show ?thesis by auto
  next
    case False
    with Cons.prems have p: "p \<in> set xs" and le: "x \<le> p" and so: "sorted xs" by auto
    show ?thesis
    proof (cases "page_body v (w x) ex x st")
      case (Next st')
      with Cons.prems(3) have "Nav q \<in> set (trace (snd (pages_loop v w ex xs st')))" by simp
      from Cons.IH [OF so p this] Next evs le show ?thesis by auto
    next
      case (Break st')
      with Cons.prems(3) evs le show ?thesis by auto
    next
      case (Raise st')
      with Cons.prems(3) evs le show ?thesis by auto
    qed
  qed
qed

lemma initial_state_trace: "trace (initial_state leads found) = [Create]"
  by (simp add: initial_state_def)

lemma task_body_navs:
  "Nav q \<in> set (trace (snd (task_body v w f ex st0))) \<Longrightarrow>
   Nav q \<in> set (trace (snd (pages_loop v w ex [1..<Suc (MAX_PAGES v)] st0)))"
  by (auto simp: task_body_def split: prod.splits if_splits option.splits)

lemma scrape_search_navs:
  assumes "Nav q \<in> set (trace (snd (scrape_search v w f ex rows)))"
  obtains st0 where "trace st0 = [Create]"
    and "Nav q \<in> set (trace (snd (pages_loop v w ex [1..<Suc (MAX_PAGES v)] st0)))"
proof (cases "with_ids (load_existing v rows)")
  case (Inl e)
  with assms show ?thesis by (simp add: scrape_search_def initial_state_trace)
next
  case (Inr leads)
  with assms have "Nav q \<in> set (trace (snd (task_body v w f ex
      (initial_state leads (artifact_rows rows)))))"
    by (simp add: scrape_search_def)
  then have "Nav q \<in> set (trace (snd (pages_loop v w ex [1..<Suc (MAX_PAGES v)]
      (initial_state leads (artifact_rows rows)))))"
    by (rule task_body_navs)
  with that [of "initial_state leads (artifact_rows rows)"] show ?thesis
    by (simp add: initial_state_trace)
qed

lemma scrape_search_stops:
  assumes "page_listings v (w p) p = Some []" and "1 \<le> p"
    and "Nav q \<in> set (trace (snd (scrape_search v w f ex rows)))"
  shows "q \<le> p"
proof -
  let ?ps = "[1..<Suc (MAX_PAGES v)]"
  from assms(3) obtain st0 where t: "trace st0 = [Create]"
    and n: "Nav q \<in> set (trace (snd (pages_loop v w ex ?ps st0)))"
    by (rule scrape_search_navs)
  show ?thesis
  proof (cases "p \<in> set ?ps")
    case True
    have "sorted ?ps" by (rule sorted_upt)
    from pages_loop_stops [OF assms(1) this True n] show ?thesis
      by (simp add: t)
  next
    case False
    with assms(2) have "MAX_PAGES v < p" by auto
    moreover from pages_loop_navs_in [OF n] have "q \<in> set ?ps"
      by (simp add: t)
    ultimately show ?thesis by auto
  qed
qed

lemma pages_loop_skip_dupes:
  assumes "page_listings v (w p) p = Some ls" and "ls \<noteq> []"
    and "list_all (\<lambda>l. lead_id l \<in> ex \<union> local_ids st) ls"
  shows "pages_loop v w ex (p # ps) st =
         pages_loop v w ex ps (st\<lparr>trace := trace st @ snd (load_page (w p) p)\<rparr>)"
proof -
  from assms(3) have fd: "filter_dupes ex (local_ids st) ls = ([], local_ids st)"
    by (rule filter_dupes_all_known)
  with pb_dupes [OF assms(1,2), of ex st] show ?thesis by simp
qed

section \<open>Pagination controller: the page loop of the safety variant\<close>

lemma spb_navfail:
  "\<not> nav_ok pw 0 \<Longrightarrow>
   safety_page_body md5 today pw ex pg st = Next (st\<lparr>trace := trace st @ [Nav pg]\<rparr>)"
  by (simp add: safety_page_body_def)

lemma spb_raise:
  "nav_ok pw 0 \<Longrightarrow> safety_page_listings md5 today pw = None \<Longrightarrow>
   safety_page_body md5 today pw ex pg st = Raise (st\<lparr>trace := trace st @ [Nav pg, Sleep 2]\<rparr>)"
  by (simp add: safety_page_body_def safety_page_listings_def Let_def)

lemma spb_break:
  "nav_ok pw 0 \<Longrightarrow> safety_page_listings md5 today pw = Some [] \<Longrightarrow>
   safety_page_body md5 today pw ex pg st = Break (st\<lparr>trace := trace st @ [Nav pg, Sleep 2]\<rparr>)"
  by (simp add: safety_page_body_def safety_page_listings_def Let_def)

lemma spb_dupes:
  "nav_ok pw 0 \<Longrightarrow> safety_page_listings md5 today pw = Some ls \<Longrightarrow> ls \<noteq> [] \<Longrightarrow>
   filter (\<lambda>l. lead_id l \<notin> ex \<and> lead_id l \<notin> local_ids st) ls = [] \<Longrightarrow>
   safety_page_body md5 today pw ex pg st = Next (st\<lparr>trace := trace st @ [Nav pg, Sleep 2]\<rparr>)"
  by (simp add: safety_page_body_def safety_page_listings_def Let_def)

lemma spb_new:
  assumes "nav_ok pw 0" and "safety_page_listings md5 today pw = Some ls"
    and "new_lst = filter (\<lambda>l. lead_id l \<notin> ex \<and> lead_id l \<notin> local_ids st) ls"
    and "new_lst \<noteq> []"
    and "safety_fetch_emails (detail pw) 0 new_lst (blocked_count st) = (new, blocks, ev)"
    and "st3 = st\<lparr>trace := trace st @ [Nav pg, Sleep 2] @ ev,
                  local_ids := local_ids st \<union> set (map lead_id new_lst),
                  all_leads := all_leads st @ new,
                  new_leads_count := new_leads_count st + length new,
                  blocked_count := blocks\<rparr>"
    and "restart = (if pg < SAFETY_MAX_PAGES then [Quit, Sleep 3, Create] else [])"
  shows "safety_page_body md5 today pw ex pg st =
     (case save_xlsx (all_leads st @ new) of
        None \<Rightarrow> Next (st3\<lparr>trace := trace st3 @ restart\<rparr>)
      | Some rows \<Rightarrow>
          if save_ok pw
          then Next (st3\<lparr>artifact := rows, trace := trace st3 @ [Save rows] @ restart\<rparr>)
          else Raise (st3\<lparr>trace := trace st3 @ [SaveError]\<rparr>))"
proof -
  from assms(3,4) have "ls \<noteq> []" by auto
  with assms show ?thesis
    by (simp add: safety_page_body_def safety_page_listings_def Let_def split: option.splits)
qed

lemma safety_page_body_cases [case_names NavFails Raises Empty Dupes New]:
  obtains
    (NavFails) "\<not> nav_ok pw 0"
      "safety_page_body dg today pw ex pg st = Next (st\<lparr>trace := trace st @ [Nav pg]\<rparr>)"
  | (Raises) "nav_ok pw 0" "safety_page_listings dg today pw = None"
      "safety_page_body dg today pw ex pg st = Raise (st\<lparr>trace := trace st @ [Nav pg, Sleep 2]\<rparr>)"
  | (Empty) "nav_ok pw 0" "safety_page_listings dg today pw = Some []"
      "safety_page_body dg today pw ex pg st = Break (st\<lparr>trace := trace st @ [Nav pg, Sleep 2]\<rparr>)"
  | (Dupes) ls where "nav_ok pw 0" "safety_page_listings dg today pw = Some ls" "ls \<noteq> []"
      "filter (\<lambda>l. lead_id l \<notin> ex \<and> lead_id l \<notin> local_ids st) ls = []"
      "safety_page_body dg today pw ex pg st = Next (st\<lparr>trace := trace st @ [Nav pg, Sleep 2]\<rparr>)"
  | (New) ls new_lst new blocks ev st3 restart where
      "nav_ok pw 0" "safety_page_listings dg today pw = Some ls"
      "new_lst = filter (\<lambda>l. lead_id l \<notin> ex \<and> lead_id l \<notin> local_ids st) ls"
      "new_lst \<noteq> []"
      "safety_fetch_emails (detail pw) 0 new_lst (blocked_count st) = (new, blocks, ev)"
      "st3 = st\<lparr>trace := trace st @ [Nav pg, Sleep 2] @ ev,
                  local_ids := local_ids st \<union> set (map lead_id new_lst),
                  all_leads := all_leads st @ new,
                  new_leads_count := new_leads_count st + length new,
                  blocked_count := blocks\<rparr>"
      "restart = (if pg < SAFETY_MAX_PAGES then [Quit, Sleep 3, Create] else [])"
      "safety_page_body dg today pw ex pg st =
         (case save_xlsx (all_leads st @ new) of
            None \<Rightarrow> Next (st3\<lparr>trace := trace st3 @ restart\<rparr>)
          | Some rows \<Rightarrow>
              if save_ok pw
              then Next (st3\<lparr>artifact := rows, trace := trace st3 @ [Save rows] @ restart\<rparr>)
              else Raise (st3\<lparr>trace := trace st3 @ [SaveError]\<rparr>))"
proof (cases "nav_ok pw 0")
  case False
  then show ?thesis using NavFails spb_navfail by blast
next
  case nav: True
  show ?thesis
  proof (cases "safety_page_listings dg today pw")
    case None
    with nav show ?thesis using Raises spb_raise by blast
  next
    case (Some ls)
    show ?thesis
    proof (cases "ls = []")
      case True
      with nav Some show ?thesis using Empty spb_break by blast
    next
      case False
      show ?thesis
      proof (cases "filter (\<lambda>l. lead_id l \<notin> ex \<and> lead_id l \<notin> local_ids st) ls = []")
        case True
        with nav Some False show ?thesis using Dupes spb_dupes by blast
      next
        case nonempty: False
        obtain new blocks ev where f:
          "safety_fetch_emails (detail pw) 0
             (filter (\<lambda>l. lead_id l \<notin> ex \<and> lead_id l \<notin> local_ids st) ls) (blocked_count st)
           = (new, blocks, ev)"
          by (metis prod_cases3)
        from spb_new [OF nav Some refl nonempty f refl refl]
          New [OF nav Some refl nonempty f refl refl]
        show ?thesis by blast
      qed
    qed
  qed
qed

lemma safety_fetch_emails_leads:
  "list_all2 (email_set valid_email) ls (fst (safety_fetch_emails dws i ls b))"
proof (induction ls arbitrary: i b)
  case Nil
  then show ?case by simp
next
  case (Cons l ls)
  have r: "email_set valid_email l l" by (simp add: email_set_def)
  have s: "get_email (dws i) (Website_URL l) \<noteq> BLOCKED \<Longrightarrow>
           get_email (dws i) (Website_URL l) \<noteq> [] \<Longrightarrow>
           email_set valid_email l (l\<lparr>Email_Address := get_email (dws i) (Website_URL l)\<rparr>)"
    using get_email_cases [of "dws i" "Website_URL l"]
    by (auto simp: email_set_def)
  from Cons [of "i + 1"] r s show ?case
    by (simp add: Let_def case_prod_beta)
qed

lemma safety_fetch_emails_events:
  "e \<in> set (snd (snd (safety_fetch_emails dws i ls b))) \<Longrightarrow> e = Quit \<or> e = Sleep 5 \<or> e = Create"
  by (induction ls arbitrary: i b) (auto simp: Let_def case_prod_beta split: if_splits)

lemma safety_page_body_navs:
  "\<exists>evs. trace (flow_state (safety_page_body md5 today pw ex pg st)) = trace st @ evs \<and>
         (\<forall>q. Nav q \<in> set evs \<longrightarrow> q = pg)"
proof (cases rule: safety_page_body_cases [where dg=md5 and today=today and pw=pw and pg=pg and ex=ex and st=st])
  case NavFails
  then show ?thesis by simp
next
  case Raises
  then show ?thesis by simp
next
  case Empty
  then show ?thesis by simp
next
  case (Dupes ls)
  then show ?thesis by simp
next
  case (New ls new_lst new blocks ev st3 restart)
  have ev: "\<And>q. Nav q \<notin> set ev"
    using safety_fetch_emails_events [of _ "detail pw" 0 new_lst "blocked_count st"] New(5)
    by fastforce
  have lp: "\<And>q. Nav q \<in> set [Nav pg, Sleep 2] \<Longrightarrow> q = pg" by simp
  have rs: "\<And>q. Nav q \<notin> set restart" by (simp add: New(7))
  show ?thesis
  proof (cases "save_xlsx (all_leads st @ new)")
    case None
    with New(6,8) have "trace (flow_state (safety_page_body md5 today pw ex pg st))
        = trace st @ ([Nav pg, Sleep 2] @ ev @ restart)" by simp
    with ev lp rs show ?thesis by (metis Un_iff set_append)
  next
    case (Some rows)
    show ?thesis
    proof (cases "save_ok pw")
      case True
      with Some New(6,8) have "trace (flow_state (safety_page_body md5 today pw ex pg st))
        = trace st @ ([Nav pg, Sleep 2] @ ev @ [Save rows] @ restart)" by simp
      moreover have "\<And>q. Nav q \<notin> set [Save rows]" by simp
      ultimately show ?thesis using ev lp rs by (metis Un_iff set_append)
    next
      case False
      with Some New(6,8) have "trace (flow_state (safety_page_body md5 today pw ex pg st))
        = trace st @ ([Nav pg, Sleep 2] @ ev @ [SaveError])" by simp
      moreover have "\<And>q. Nav q \<notin> set [SaveError]" by simp
      ultimately show ?thesis using ev lp by (metis Un_iff set_append)
    qed
  qed
qed

lemma safety_pages_loop_navs_in:
  "Nav q \<in> set (trace (snd (safety_pages_loop md5 today w ex ps st))) \<Longrightarrow>
   Nav q \<in> set (trace st) \<or> q \<in> set ps"
proof (induction ps arbitrary: st)
  case Nil
  then show ?case by simp
next
  case (Cons x xs)
  obtain evs where evs: "trace (flow_state (safety_page_body md5 today (w x) ex x st)) = trace st @ evs"
      "\<And>q. Nav q \<in> set evs \<Longrightarrow> q = x"
    using safety_page_body_navs [of md5 today "w x" ex x st] by blast
  show ?case
  proof (cases "safety_page_body md5 today (w x) ex x st")
    case (Next st')
    with Cons.prems have "Nav q \<in> set (trace (snd (safety_pages_loop md5 today w ex xs st')))" by simp
    from Cons.IH [OF this] Next evs show ?thesis by auto
  next
    case (Break st')
    with Cons.prems evs show ?thesis by auto
  next
    case (Raise st')
    with Cons.prems evs show ?thesis by auto
  qed
qed

lemma safety_pages_loop_stops:
  assumes "nav_ok (w p) 0" and "safety_page_listings md5 today (w p) = Some []"
    and "sorted ps" and "p \<in> set ps"
    and "Nav q \<in> set (trace (snd (safety_pages_loop md5 today w ex ps st)))"
  shows "Nav q \<in> set (trace st) \<or> q \<le> p"
  using assms(3-)
proof (induction ps arbitrary: st)
  case Nil
  then show ?case by simp
next
  case (Cons x xs)
  obtain evs where evs: "trace (flow_state (safety_page_body md5 today (w x) ex x st)) = trace st @ evs"
      "\<And>q. Nav q \<in> set evs \<Longrightarrow> q = x"
    using safety_page_body_navs [of md5 today "w x" ex x st] by blast
  show ?case
  proof (cases "x = p")
    case True
    with assms(1,2) have "safety_page_body md5 today (w x) ex x st
        = Break (st\<lparr>trace := trace st @ [Nav x, Sleep 2]\<rparr>)"
      by (simp add: spb_break)
    with Cons.prems(3) True show ?thesis by auto
  next
    case False
    with Cons.prems have p: "p \<in> set xs" and le: "x \<le> p" and so: "sorted xs" by auto
    show ?thesis
    proof (cases "safety_page_body md5 today (w x) ex x st")
      case (Next st')
      with Cons.prems(3) have "Nav q \<in> set (trace (snd (safety_pages_loop md5 today w ex xs st')))"
        by simp
      from Cons.IH [OF so p this] Next evs le show ?thesis by auto
    next
      case (Break st')
      with Cons.prems(3) evs le show ?thesis by auto
    next
      case (Raise st')
      with Cons.prems(3) evs le show ?thesis by auto
    qed
  qed
qed

lemma safety_task_body_navs:
  "Nav q \<in> set (trace (snd (safety_task_body md5 today w ex st0))) \<Longrightarrow>
   Nav q \<in> set (trace (snd (safety_pages_loop md5 today w ex [1..<Suc SAFETY_MAX_PAGES] st0)))"
  by (auto simp: safety_task_body_def split: prod.splits)

lemma scrape_navs:
  assumes "Nav q \<in> set (trace (snd (scrape md5 today w ex rows)))"
  obtains st0 where "trace st0 = [Create]"
    and "Nav q \<in> set (trace (snd (safety_pages_loop md5 today w ex [1..<Suc SAFETY_MAX_PAGES] st0)))"
proof (cases "with_ids (safety_load_existing md5 rows)")
  case (Inl e)
  with assms show ?thesis by (simp add: scrape_def initial_state_trace)
next
  case (Inr leads)
  with assms have "Nav q \<in> set (trace (snd (safety_task_body md5 today w ex
      (initial_state leads (artifact_rows rows)))))"
    by (simp add: scrape_def)
  then have "Nav q \<in> set (trace (snd (safety_pages_loop md5 today w ex
      [1..<Suc SAFETY_MAX_PAGES] (initial_state leads (artifact_rows rows)))))"
    by (rule safety_task_body_navs)
  with that [of "initial_state leads (artifact_rows rows)"] show ?thesis
    by (simp add: initial_state_trace)
qed

lemma scrape_stops:
  assumes "nav_ok (w p) 0" and "safety_page_listings md5 today (w p) = Some []" and "1 \<le> p"
    and "Nav q \<in> set (trace (snd (scrape md5 today w ex rows)))"
  shows "q \<le> p"
proof -
  let ?ps = "[1..<Suc SAFETY_MAX_PAGES]"
  from assms(4) obtain st0 where t: "trace st0 = [Create]"
    and n: "Nav q \<in> set (trace (snd (safety_pages_loop md5 today w ex ?ps st0)))"
    by (rule scrape_navs)
  show ?thesis
  proof (cases "p \<in> set ?ps")
    case True
    have "sorted ?ps" by (rule sorted_upt)
    from safety_pages_loop_stops [OF assms(1,2) this True n] show ?thesis
      by (simp add: t)
  next
    case False
    with assms(3) have "SAFETY_MAX_PAGES < p" by auto
    moreover from safety_pages_loop_navs_in [OF n] have "q \<in> set ?ps"
      by (simp add: t)
    ultimately show ?thesis by auto
  qed
qed

lemma safety_pages_loop_skip_dupes:
  assumes "nav_ok (w p) 0" and "safety_page_listings md5 today (w p) = Some ls" and "ls \<noteq> []"
    and "list_all (\<lambda>l. lead_id l \<in> ex \<union> local_ids st) ls"
  shows "safety_pages_loop md5 today w ex (p # ps) st =
         safety_pages_loop md5 today w ex ps (st\<lparr>trace := trace st @ [Nav p, Sleep 2]\<rparr>)"
proof -
  from assms(4) have "filter (\<lambda>l. lead_id l \<notin> ex \<and> lead_id l \<notin> local_ids st) ls = []"
    by (auto simp: list_all_iff filter_empty_conv)
  with spb_dupes [OF assms(1,2,3), of ex st] show ?thesis by simp
qed

text \<open>Parsing a page on which no fragment passes the filter.\<close>

lemma map_filter_Nil: "list_all (\<lambda>x. f x = None) xs \<Longrightarrow> List.map_filter f xs = []"
  by (induction xs) (simp_all add: List.map_filter_simps)

lemma janitor_page_rejected:
  assumes "list_all (\<lambda>l. \<exists>u. website_of l = Inr u \<and> \<not> janitor_is_valid_website u) ls"
  shows "get_listings_from_page (janitor_parse_listing md5 today) (Results ls) = Some []"
proof -
  from assms have "list_all (\<lambda>l. janitor_parse_listing md5 today l = None) ls"
    by (auto simp: list_all_iff intro: janitor_parse_listing_None)
  then show ?thesis
    by (simp add: get_listings_from_page_def map_filter_Nil)
qed

lemma safety_page_rejected:
  assumes "list_all (\<lambda>l. \<exists>u. website_of l = Inr u \<and> \<not> safety_is_valid_website u) ls"
  shows "get_listings_from_page (safety_parse_listing md5 today) (Results ls) = Some []"
proof -
  from assms have "list_all (\<lambda>l. safety_parse_listing md5 today l = None) ls"
    by (auto simp: list_all_iff intro: safety_parse_listing_None)
  then show ?thesis
    by (simp add: get_listings_from_page_def map_filter_Nil)
qed

lemma janitor_ops_parse [simp]: "parse (janitor_ops md5 today) = janitor_parse_listing md5 today"
  by (simp add: janitor_ops_def)

lemma b2b_ops_parse [simp]: "parse (b2b_ops md5 lbl today) = b2b_parse_listing md5 lbl today"
  by (simp add: b2b_ops_def)

section \<open>Deduplication and the end of results\<close>

text \<open>
  C2. A parsed lead is accepted only if its identity is in neither scope, and an accepted
  identity is in the local scope before the next listing of the page is considered, so
  that an identity occurring twice on a page is accepted once. The janitor and B2B loop
  does so (lemmas \<open>filter_dupes_fresh\<close>, \<open>filter_dupes_distinct\<close>, \<open>filter_dupes_snd\<close>,
  \<open>filter_dupes_accepts\<close>). The safety loop filters the whole page against the scopes as
  they were before the page and adds the identities afterwards: of two fragments of the
  same business on one page both are accepted, where the janitor loop accepts one.
\<close>

theorem safety_accepts_same_page_duplicate:
  "map lead_id (all_leads (snd (scrape md5 ''1/2/26''
       (one_page_world [acme_listing (Some ''https://acme.com''),
                        acme_listing (Some ''https://acme.com'')] True)
       {} [])))
     = [take 12 (md5 ''acme paper|(718) 555-0100''), take 12 (md5 ''acme paper|(718) 555-0100'')] \<and>
   map lead_id (all_leads (snd (scrape_search (janitor_ops md5 ''1/2/26'')
       (one_page_world [acme_listing (Some ''https://acme.com''),
                        acme_listing (Some ''https://acme.com'')] True)
       True {} [])))
     = [take 12 (md5 ''acme paper|(718) 555-0100'')]"
  by code_simp

text \<open>The page loop is left by \<^verbatim>\<open>break\<close> only after a page for which the parse step
  yields the empty list, and the B2B parser rejects a fragment only for a missing company
  name or for a website link without \<^verbatim>\<open>href\<close>.\<close>

lemma page_body_Break:
  "page_body v pw ex page st = Break st' \<Longrightarrow> page_listings v pw page = Some []"
  by (cases rule: page_body_cases [where v=v and pw=pw and page=page and ex=ex and st=st])
     (auto split: option.splits if_splits)

lemma map_filter_Nil_all: "List.map_filter f xs = [] \<Longrightarrow> list_all (\<lambda>x. f x = None) xs"
  by (induction xs) (auto simp: List.map_filter_simps split: option.splits)

lemma b2b_page_empty:
  assumes "get_listings_from_page (b2b_parse_listing md5 lbl today) (Results ls) = Some []"
  shows "list_all (\<lambda>l. text_or_empty (name_el l) = [] \<or> website_of l = Inl KeyError) ls"
proof -
  from assms have "list_all (\<lambda>l. b2b_parse_listing md5 lbl today l = None) ls"
    by (simp add: get_listings_from_page_def map_filter_Nil_all)
  then show ?thesis
    by (auto simp: list_all_iff dest: b2b_parse_listing_None)
qed

text \<open>
  C4, as the claim states it, fails for the B2B variant: a first page whose only listing
  has no website (so that no listing passes the website filter) is parsed into a lead
  there, and the second page is fetched.
\<close>

theorem b2b_page_without_website_continues:
  "website_of (acme_listing None) = Inr [] \<and>
   janitor_is_valid_website [] = False \<and>
   safety_is_valid_website [] = False \<and>
   Nav 2 \<in> set (trace (snd (scrape_search (b2b_ops (\<lambda>k. k) ''Wholesale'' ''1/2/26'')
                               (one_page_world [acme_listing None] True) True {} [])))"
  by code_simp

text \<open>
  C4, amended. In every variant, after a page for which the parse step yields the empty
  list, no later page is fetched. In the janitor and in the safety variant that is the
  case for a page on which no listing passes the website filter; the B2B variant has no
  website filter, and there a page that shows results ends the task only when the parser
  rejects each of its listings for another reason (no company name, or a website link
  without \<^verbatim>\<open>href\<close>).
\<close>

theorem empty_page_ends_task:
  "(1 \<le> p \<and> page_listings v (w p) p = Some [] \<and>
    Nav q \<in> set (trace (snd (scrape_search v w flush_ok existing_ids rows))) \<longrightarrow> q \<le> p) \<and>
   (1 \<le> p \<and> nav_ok (w p) 0 \<and> safety_page_listings md5 today (w p) = Some [] \<and>
    Nav q \<in> set (trace (snd (scrape md5 today w existing_ids rows))) \<longrightarrow> q \<le> p) \<and>
   (1 \<le> p \<and> view (w p) (fst (load_page (w p) p)) = Results ls \<and>
    list_all (\<lambda>l. \<exists>u. website_of l = Inr u \<and> \<not> janitor_is_valid_website u) ls \<and>
    Nav q \<in> set (trace (snd (scrape_search (janitor_ops md5 today) w flush_ok existing_ids rows)))
      \<longrightarrow> q \<le> p) \<and>
   (1 \<le> p \<and> nav_ok (w p) 0 \<and> view (w p) True = Results ls \<and>
    list_all (\<lambda>l. \<exists>u. website_of l = Inr u \<and> \<not> safety_is_valid_website u) ls \<and>
    Nav q \<in> set (trace (snd (scrape md5 today w existing_ids rows))) \<longrightarrow> q \<le> p) \<and>
   (page_body (b2b_ops md5 search_label today) (w p) existing_ids p st0 = Break st1 \<and>
    view (w p) (fst (load_page (w p) p)) = Results ls
      \<longrightarrow> list_all (\<lambda>l. text_or_empty (name_el l) = [] \<or> website_of l = Inl KeyError) ls)"
proof (intro conjI impI)
  assume "1 \<le> p \<and> page_listings v (w p) p = Some [] \<and>
    Nav q \<in> set (trace (snd (scrape_search v w flush_ok existing_ids rows)))"
  then show "q \<le> p" using scrape_search_stops by blast
next
  assume "1 \<le> p \<and> nav_ok (w p) 0 \<and> safety_page_listings md5 today (w p) = Some [] \<and>
    Nav q \<in> set (trace (snd (scrape md5 today w existing_ids rows)))"
  then show "q \<le> p" using scrape_stops by blast
next
  assume a: "1 \<le> p \<and> view (w p) (fst (load_page (w p) p)) = Results ls \<and>
    list_all (\<lambda>l. \<exists>u. website_of l = Inr u \<and> \<not> janitor_is_valid_website u) ls \<and>
    Nav q \<in> set (trace (snd (scrape_search (janitor_ops md5 today) w flush_ok existing_ids rows)))"
  then have "page_listings (janitor_ops md5 today) (w p) p = Some []"
    by (simp add: page_listings_def janitor_page_rejected)
  with a show "q \<le> p" using scrape_search_stops by blast
next
  assume a: "1 \<le> p \<and> nav_ok (w p) 0 \<and> view (w p) True = Results ls \<and>
    list_all (\<lambda>l. \<exists>u. website_of l = Inr u \<and> \<not> safety_is_valid_website u) ls \<and>
    Nav q \<in> set (trace (snd (scrape md5 today w existing_ids rows)))"
  then have "safety_page_listings md5 today (w p) = Some []"
    by (simp add: safety_page_listings_def safety_page_rejected)
  with a show "q \<le> p" using scrape_stops by blast
next
  assume a: "page_body (b2b_ops md5 search_label today) (w p) existing_ids p st0 = Break st1 \<and>
    view (w p) (fst (load_page (w p) p)) = Results ls"
  then have "page_listings (b2b_ops md5 search_label today) (w p) p = Some []"
    using page_body_Break by blast
  with a have "get_listings_from_page (b2b_parse_listing md5 search_label today) (Results ls) = Some []"
    by (simp add: page_listings_def)
  then show "list_all (\<lambda>l. text_or_empty (name_el l) = [] \<or> website_of l = Inl KeyError) ls"
    by (rule b2b_page_empty)
qed

theorem empty_page_ends_task_witness:
  "Nav 2 \<notin> set (trace (snd (scrape_search (janitor_ops (\<lambda>k. k) ''1/2/26'')
                               (one_page_world [acme_listing None] True) True {} []))) \<and>
   Nav 2 \<notin> set (trace (snd (scrape (\<lambda>k. k) ''1/2/26''
                               (one_page_world [acme_listing None] True) {} []))) \<and>
   Nav 1 \<in> set (trace (snd (scrape_search (janitor_ops (\<lambda>k. k) ''1/2/26'')
                               (one_page_world [acme_listing None] True) True {} []))) \<and>
   Nav 2 \<notin> set (trace (snd (scrape_search (b2b_ops (\<lambda>k. k) ''Wholesale'' ''1/2/26'')
                               (one_page_world [nameless_listing] True) True {} []))) \<and>
   (text_or_empty (name_el nameless_listing) = [] \<or> website_of nameless_listing = Inl KeyError)"
proof -
  let ?B = "b2b_ops (\<lambda>k. k) ''Wholesale'' ''1/2/26''"
  let ?n = "one_page_world [nameless_listing] True"
  have vn: "view (?n 1) (fst (load_page (?n 1) 1)) = Results [nameless_listing]" by code_simp
  have pn: "page_listings ?B (?n 1) 1 = Some []" by code_simp
  then have bn: "page_body ?B (?n 1) {} 1 (initial_state [] [])
      = Break ((initial_state [] [])\<lparr>trace := trace (initial_state [] []) @ snd (load_page (?n 1) 1)\<rparr>)"
    by (rule pb_break)
  let ?w = "one_page_world [acme_listing None] True"
  have v1: "view (?w 1) (fst (load_page (?w 1) 1)) = Results [acme_listing None]" by code_simp
  have v2: "view (?w 1) True = Results [acme_listing None]" by code_simp
  have n: "nav_ok (?w 1) 0" by code_simp
  have w: "website_of (acme_listing None) = Inr []" by code_simp
  have j: "list_all (\<lambda>l. \<exists>u. website_of l = Inr u \<and> \<not> janitor_is_valid_website u) [acme_listing None]"
    using w janitor_is_valid_website_empty by simp
  have s: "list_all (\<lambda>l. \<exists>u. website_of l = Inr u \<and> \<not> safety_is_valid_website u) [acme_listing None]"
    using w safety_is_valid_website_empty by simp
  have one: "(1::nat) \<le> 1" by simp
  note inst = empty_page_ends_task
      [of 1 _ ?w 2 True "{}" "[]" "\<lambda>k. k" "''1/2/26''" "[acme_listing None]"]
  from inst v1 j one
  have a: "Nav 2 \<notin> set (trace (snd (scrape_search (janitor_ops (\<lambda>k. k) ''1/2/26'') ?w True {} [])))"
    by auto
  from inst v2 n s one
  have b: "Nav 2 \<notin> set (trace (snd (scrape (\<lambda>k. k) ''1/2/26'' ?w {} [])))"
    by auto
  have c: "Nav 1 \<in> set (trace (snd (scrape_search (janitor_ops (\<lambda>k. k) ''1/2/26'') ?w True {} [])))"
    by code_simp
  note instB = empty_page_ends_task
      [of 1 ?B ?n 2 True "{}" "[]" "\<lambda>k. k" "''1/2/26''" "[nameless_listing]" "''Wholesale''"
          "initial_state [] []"
          "(initial_state [] [])\<lparr>trace := trace (initial_state [] []) @ snd (load_page (?n 1) 1)\<rparr>"]
  from instB pn one
  have d: "Nav 2 \<notin> set (trace (snd (scrape_search ?B ?n True {} [])))"
    by auto
  from instB bn vn
  have e: "text_or_empty (name_el nameless_listing) = [] \<or> website_of nameless_listing = Inl KeyError"
    by simp
  from a b c d e show ?thesis by blast
qed

text \<open>
  C5. A page on which every parsed listing's identity is already in the global or in the
  local scope adds no lead, writes nothing and does not end the task: the loop goes on
  with the pages that remain, in the same state but for the calls of the page load
  (navigations and sleeps). Janitor and B2B (\<open>pages_loop\<close>), and safety
  (\<open>safety_pages_loop\<close>).
\<close>

theorem all_duplicates_page_is_skipped:
  "(page_listings v (w p) p = Some ls \<and> ls \<noteq> [] \<and>
    list_all (\<lambda>l. lead_id l \<in> existing_ids \<union> local_ids st) ls
      \<longrightarrow> pages_loop v w existing_ids (p # ps) st =
          pages_loop v w existing_ids ps (st\<lparr>trace := trace st @ snd (load_page (w p) p)\<rparr>) \<and>
          list_all (\<lambda>e. e = Nav p \<or> e = Sleep 2 \<or> e = Sleep 5) (snd (load_page (w p) p))) \<and>
   (nav_ok (w p) 0 \<and> safety_page_listings md5 today (w p) = Some ls \<and> ls \<noteq> [] \<and>
    list_all (\<lambda>l. lead_id l \<in> existing_ids \<union> local_ids st) ls
      \<longrightarrow> safety_pages_loop md5 today w existing_ids (p # ps) st =
          safety_pages_loop md5 today w existing_ids ps (st\<lparr>trace := trace st @ [Nav p, Sleep 2]\<rparr>))"
proof (intro conjI impI)
  assume a: "page_listings v (w p) p = Some ls \<and> ls \<noteq> [] \<and>
    list_all (\<lambda>l. lead_id l \<in> existing_ids \<union> local_ids st) ls"
  then show "pages_loop v w existing_ids (p # ps) st =
          pages_loop v w existing_ids ps (st\<lparr>trace := trace st @ snd (load_page (w p) p)\<rparr>)"
    using pages_loop_skip_dupes by blast
  show "list_all (\<lambda>e. e = Nav p \<or> e = Sleep 2 \<or> e = Sleep 5) (snd (load_page (w p) p))"
    using load_page_events [of _ "w p" p] by (auto simp: list_all_iff)
next
  assume "nav_ok (w p) 0 \<and> safety_page_listings md5 today (w p) = Some ls \<and> ls \<noteq> [] \<and>
    list_all (\<lambda>l. lead_id l \<in> existing_ids \<union> local_ids st) ls"
  then show "safety_pages_loop md5 today w existing_ids (p # ps) st =
          safety_pages_loop md5 today w existing_ids ps (st\<lparr>trace := trace st @ [Nav p, Sleep 2]\<rparr>)"
    using safety_pages_loop_skip_dupes by blast
qed

theorem all_duplicates_page_is_skipped_witness:
  "pages_loop (janitor_ops (\<lambda>k. k) ''1/2/26'')
     (\<lambda>p. one_page_world [acme_listing (Some ''https://acme.com'')] True 1) {''acme paper|(''} [1, 2]
     (initial_state [] [])
   = pages_loop (janitor_ops (\<lambda>k. k) ''1/2/26'')
     (\<lambda>p. one_page_world [acme_listing (Some ''https://acme.com'')] True 1) {''acme paper|(''} [2]
     ((initial_state [] [])\<lparr>trace := [Create, Nav 1, Sleep 2]\<rparr>) \<and>
   safety_pages_loop (\<lambda>k. k) ''1/2/26''
     (\<lambda>p. one_page_world [acme_listing (Some ''https://acme.com'')] True 1) {''acme paper|(''} [1, 2]
     (initial_state [] [])
   = safety_pages_loop (\<lambda>k. k) ''1/2/26''
     (\<lambda>p. one_page_world [acme_listing (Some ''https://acme.com'')] True 1) {''acme paper|(''} [2]
     ((initial_state [] [])\<lparr>trace := [Create, Nav 1, Sleep 2]\<rparr>)"
proof -
  let ?w = "\<lambda>p::nat. one_page_world [acme_listing (Some ''https://acme.com'')] True 1"
  let ?J = "janitor_ops (\<lambda>k. k) ''1/2/26''"
  obtain ls where ls: "page_listings ?J (?w 1) 1 = Some ls" "ls \<noteq> []" "map lead_id ls = [''acme paper|('']"
  proof -
    have "map_option (map lead_id) (page_listings ?J (?w 1) 1) = Some [''acme paper|('']"
      by code_simp
    then show ?thesis using that by auto
  qed
  obtain ls' where ls': "safety_page_listings (\<lambda>k. k) ''1/2/26'' (?w 1) = Some ls'" "ls' \<noteq> []"
      "map lead_id ls' = [''acme paper|('']"
  proof -
    have "map_option (map lead_id) (safety_page_listings (\<lambda>k. k) ''1/2/26'' (?w 1)) = Some [''acme paper|('']"
      by code_simp
    then show ?thesis using that by auto
  qed
  have n: "nav_ok (?w 1) 0" by code_simp
  have lp: "snd (load_page (?w 1) 1) = [Nav 1, Sleep 2]" by code_simp
  have t: "trace (initial_state [] []) = [Create]" by (rule initial_state_trace)
  have t': "trace (initial_state [] []) = [Create]" by (rule initial_state_trace)
  have d: "list_all (\<lambda>l. lead_id l \<in> {''acme paper|(''} \<union> local_ids (initial_state [] [])) ls"
    using ls(3) by (auto simp: list_all_iff)
  have d': "list_all (\<lambda>l. lead_id l \<in> {''acme paper|(''} \<union> local_ids (initial_state [] [])) ls'"
    using ls'(3) by (auto simp: list_all_iff)
  from all_duplicates_page_is_skipped
         [of ?J ?w 1 ls "{''acme paper|(''}" "initial_state [] []" "[2]"] ls(1,2) d lp t
  have a: "pages_loop ?J ?w {''acme paper|(''} [1, 2] (initial_state [] [])
      = pages_loop ?J ?w {''acme paper|(''} [2] ((initial_state [] [])\<lparr>trace := [Create, Nav 1, Sleep 2]\<rparr>)"
    by simp
  from all_duplicates_page_is_skipped
         [of _ ?w 1 ls' "{''acme paper|(''}" "initial_state [] []" "[2]" "\<lambda>k. k" "''1/2/26''"]
       ls'(1,2) d' n t'
  have b: "safety_pages_loop (\<lambda>k. k) ''1/2/26'' ?w {''acme paper|(''} [1, 2] (initial_state [] [])
      = safety_pages_loop (\<lambda>k. k) ''1/2/26'' ?w {''acme paper|(''} [2]
          ((initial_state [] [])\<lparr>trace := [Create, Nav 1, Sleep 2]\<rparr>)"
    by simp
  from a b show ?thesis by simp
qed

text \<open>
  C6, as the claim states it, fails for the safety variant: when no page loads, each page
  is attempted once (no retry and no delay between attempts), and after the failure of
  page 1 the task goes on to fetch pages 2 to 5 rather than end as after a page with zero
  listings.
\<close>

theorem safety_load_is_not_retried:
  "trace (snd (scrape (\<lambda>k. k) ''1/2/26'' offline_world {} []))
     = [Create, Nav 1, Nav 2, Nav 3, Nav 4, Nav 5, Quit]"
  by code_simp

text \<open>
  C6, amended. In the janitor and B2B variants the load of a search page is attempted up to
  3 times, with a sleep of 5 seconds after the first and after the second failure, and no
  further attempt is made after the third; if the browser then shows no results, the page
  produces zero listings and ends the task. The safety variant attempts each page once
  and after a failure goes on to the next page.
\<close>

theorem load_page_retries:
  "load_page pw p =
     (if nav_ok pw 0 then (True, [Nav p, Sleep 2])
      else if nav_ok pw 1 then (True, [Nav p, Sleep 5, Nav p, Sleep 2])
      else if nav_ok pw 2 then (True, [Nav p, Sleep 5, Nav p, Sleep 5, Nav p, Sleep 2])
      else (False, [Nav p, Sleep 5, Nav p, Sleep 5, Nav p])) \<and>
   (nav_ok pw 0 = False \<and> nav_ok pw 1 = False \<and> nav_ok pw 2 = False \<and> view pw False = NoResults
      \<longrightarrow> page_body v pw existing_ids p st =
          Break (st\<lparr>trace := trace st @ [Nav p, Sleep 5, Nav p, Sleep 5, Nav p]\<rparr>)) \<and>
   (nav_ok pw 0 = False
      \<longrightarrow> safety_page_body md5 today pw existing_ids p st = Next (st\<lparr>trace := trace st @ [Nav p]\<rparr>))"
proof (intro conjI impI)
  show "load_page pw p =
     (if nav_ok pw 0 then (True, [Nav p, Sleep 2])
      else if nav_ok pw 1 then (True, [Nav p, Sleep 5, Nav p, Sleep 2])
      else if nav_ok pw 2 then (True, [Nav p, Sleep 5, Nav p, Sleep 5, Nav p, Sleep 2])
      else (False, [Nav p, Sleep 5, Nav p, Sleep 5, Nav p]))"
    by (simp add: load_page_first load_page_second load_page_third load_page_exhausted)
next
  assume a: "nav_ok pw 0 = False \<and> nav_ok pw 1 = False \<and> nav_ok pw 2 = False \<and> view pw False = NoResults"
  then have lp: "load_page pw p = (False, [Nav p, Sleep 5, Nav p, Sleep 5, Nav p])"
    by (simp add: load_page_exhausted)
  with a have "page_listings v pw p = Some []"
    by (simp add: page_listings_def get_listings_from_page_def)
  from pb_break [OF this, of existing_ids st] lp
  show "page_body v pw existing_ids p st =
          Break (st\<lparr>trace := trace st @ [Nav p, Sleep 5, Nav p, Sleep 5, Nav p]\<rparr>)"
    by simp
next
  assume "nav_ok pw 0 = False"
  then show "safety_page_body md5 today pw existing_ids p st = Next (st\<lparr>trace := trace st @ [Nav p]\<rparr>)"
    by (simp add: spb_navfail)
qed

theorem load_page_retries_witness:
  "page_body (janitor_ops (\<lambda>k. k) ''1/2/26'') (offline_world 1) {} 1
      (initial_state [] [])
   = Break ((initial_state [] [])
              \<lparr>trace := [Create, Nav 1, Sleep 5, Nav 1, Sleep 5, Nav 1]\<rparr>) \<and>
   safety_page_body (\<lambda>k. k) ''1/2/26'' (offline_world 1) {} 1 (initial_state [] [])
   = Next ((initial_state [] [])\<lparr>trace := [Create, Nav 1]\<rparr>)"
proof -
  have h: "nav_ok (offline_world 1) 0 = False" "nav_ok (offline_world 1) 1 = False"
    "nav_ok (offline_world 1) 2 = False" "view (offline_world 1) False = NoResults"
    by (simp_all add: offline_world_def)
  have t: "trace (initial_state [] []) = [Create]"
    by (rule initial_state_trace)
  have t': "trace (initial_state [] []) = [Create]"
    by (rule initial_state_trace)
  from load_page_retries
         [of "offline_world 1" 1 "janitor_ops (\<lambda>k. k) ''1/2/26''" "{}"
             "initial_state [] []"] h t
  have a: "page_body (janitor_ops (\<lambda>k. k) ''1/2/26'') (offline_world 1) {} 1
      (initial_state [] [])
   = Break ((initial_state [] [])
              \<lparr>trace := [Create, Nav 1, Sleep 5, Nav 1, Sleep 5, Nav 1]\<rparr>)"
    by simp
  from load_page_retries
         [of "offline_world 1" 1 _ "{}" "initial_state [] []" "\<lambda>k. k" "''1/2/26''"] h t'
  have b: "safety_page_body (\<lambda>k. k) ''1/2/26'' (offline_world 1) {} 1 (initial_state [] [])
   = Next ((initial_state [] [])\<lparr>trace := [Create, Nav 1]\<rparr>)"
    by simp
  from a b show ?thesis by simp
qed

text \<open>
  After the third failure the janitor and B2B loops do not skip the page: the
  \<^verbatim>\<open>continue\<close> of the last attempt belongs to the retry loop, and
  \<^verbatim>\<open>get_listings_from_page\<close> parses what the browser shows. When that is a results page
  left from before, its listings are accepted.
\<close>

lemma exhausted_retries_parse_what_browser_shows:
  "map Company_Name (artifact (snd (scrape_search (janitor_ops (\<lambda>k. k) ''1/2/26'')
       stale_world True {} []))) = [''Acme Paper''] \<and>
   take 6 (trace (snd (scrape_search (janitor_ops (\<lambda>k. k) ''1/2/26'') stale_world True {} [])))
     = [Create, Nav 1, Sleep 5, Nav 1, Sleep 5, Nav 1]"
  by code_simp

section \<open>The reload of the artifact\<close>

lemma with_ids_set:
  "with_ids recs = Inr leads \<Longrightarrow> l \<in> set leads \<Longrightarrow>
   \<exists>r i. (r, Some i) \<in> set recs \<and> l = lead_of_row r i"
proof (induction recs arbitrary: leads rule: with_ids.induct)
  case 1
  then show ?case by simp
next
  case (2 r rs)
  then show ?case by simp
next
  case (3 r i rs)
  from "3.prems"(1) obtain ls where ls: "with_ids rs = Inr ls" "leads = lead_of_row r i # ls"
    by (auto split: sum.splits)
  show ?case
  proof (cases "l = lead_of_row r i")
    case True
    then show ?thesis by (intro exI [of _ r] exI [of _ i]) simp
  next
    case False
    with "3.prems"(2) ls(2) have "l \<in> set ls" by simp
    with ls(1) have "\<exists>r i. (r, Some i) \<in> set rs \<and> l = lead_of_row r i" by (rule "3.IH")
    then show ?thesis by auto
  qed
qed

lemma with_ids_source:
  assumes "with_ids recs = Inr leads" and "l \<in> set leads"
  obtains r i where "(r, Some i) \<in> set recs" and "l = lead_of_row r i"
  using with_ids_set [OF assms] by blast

text \<open>The local scope can be built exactly when every record has its identity; the
  exception is a \<^verbatim>\<open>KeyError\<close>.\<close>

lemma with_ids_Inr_iff:
  "(\<exists>leads. with_ids recs = Inr leads) \<longleftrightarrow> list_all (\<lambda>p. snd p \<noteq> None) recs"
  by (induction recs rule: with_ids.induct) (auto split: sum.splits)

lemma with_ids_error: "with_ids recs = Inl e \<Longrightarrow> e = KeyError"
  by (induction recs rule: with_ids.induct) (auto split: sum.splits)

lemma filter_records_kept:
  "filter_records ok rs = Inr kept \<Longrightarrow> r \<in> set kept \<Longrightarrow>
   r \<in> set rs \<and> ok (Website_URL_cell r) = Inr True"
proof (induction rs arbitrary: kept)
  case Nil
  then show ?case by simp
next
  case (Cons x xs)
  then show ?case by (auto split: sum.splits if_splits)
qed

lemma janitor_cell_valid:
  "janitor_is_valid_website_cell c = Inr True \<Longrightarrow> janitor_is_valid_website (cell_text c)"
  by (cases c) (auto simp: janitor_is_valid_website_cell_def split: if_splits)

lemma safety_cell_valid:
  "safety_is_valid_website_cell c = Inr True \<Longrightarrow> safety_is_valid_website (cell_text c)"
  by (cases c) (auto simp: safety_is_valid_website_cell_def split: if_splits)

text \<open>On a cell that is a text the filter is the filter on strings; an empty cell
  (\<^verbatim>\<open>nan\<close>) makes it raise.\<close>

lemma is_valid_website_cell_Str:
  "janitor_is_valid_website_cell (Str s) = Inr (janitor_is_valid_website s)"
  "safety_is_valid_website_cell (Str s) = Inr (safety_is_valid_website s)"
  by (simp_all add: janitor_is_valid_website_cell_def safety_is_valid_website_cell_def
        janitor_is_valid_website_def safety_is_valid_website_def)

lemma is_valid_website_cell_NaN:
  "janitor_is_valid_website_cell NaN = Inl AttributeError"
  "safety_is_valid_website_cell NaN = Inl AttributeError"
  by (simp_all add: janitor_is_valid_website_cell_def safety_is_valid_website_cell_def)

lemma janitor_load_existing_source:
  "(r, i) \<in> set (janitor_load_existing md5 rows) \<Longrightarrow> r \<in> set rows"
  by (auto simp: janitor_load_existing_def split: sum.splits dest: filter_records_kept)

lemma janitor_load_existing_valid:
  "(r, Some i) \<in> set (janitor_load_existing md5 rows) \<Longrightarrow>
   janitor_is_valid_website (cell_text (Website_URL_cell r))"
  by (auto simp: janitor_load_existing_def split: sum.splits
           dest: filter_records_kept intro: janitor_cell_valid)

lemma safety_load_existing_source:
  "(r, i) \<in> set (safety_load_existing md5 rows) \<Longrightarrow> r \<in> set rows"
  by (auto simp: safety_load_existing_def split: sum.splits dest: filter_records_kept)

lemma safety_load_existing_valid:
  "(r, Some i) \<in> set (safety_load_existing md5 rows) \<Longrightarrow>
   safety_is_valid_website (cell_text (Website_URL_cell r))"
  by (auto simp: safety_load_existing_def split: sum.splits
           dest: filter_records_kept intro: safety_cell_valid)

lemma b2b_load_existing_source:
  "(r, i) \<in> set (b2b_load_existing md5 rows) \<Longrightarrow> r \<in> set rows"
  by (induction rows) (auto split: sum.splits)

text \<open>The janitor and the safety reload give every record its identity whenever the
  website cells are texts; the B2B reload needs texts in the name and phone cells.\<close>

lemma filter_records_texts:
  assumes "list_all (\<lambda>r. \<exists>s. Website_URL_cell r = Str s) rows"
    and "\<And>s. \<exists>b. ok (Str s) = Inr b"
  shows "\<exists>kept. filter_records ok rows = Inr kept"
  using assms(1)
proof (induction rows)
  case Nil
  then show ?case by simp
next
  case (Cons r rs)
  then obtain s kept where s: "Website_URL_cell r = Str s" and k: "filter_records ok rs = Inr kept"
    by auto
  from assms(2) obtain b where "ok (Str s) = Inr b" by blast
  with s k show ?case by simp
qed

lemma janitor_reload_total:
  assumes "list_all (\<lambda>r. \<exists>s. Website_URL_cell r = Str s) rows"
  shows "\<exists>leads. with_ids (janitor_load_existing md5 rows) = Inr leads"
proof -
  from assms obtain kept where "filter_records janitor_is_valid_website_cell rows = Inr kept"
    using filter_records_texts [of rows janitor_is_valid_website_cell]
    by (auto simp: is_valid_website_cell_Str)
  then show ?thesis
    by (simp add: janitor_load_existing_def with_ids_Inr_iff list_all_iff)
qed

lemma safety_reload_total:
  assumes "list_all (\<lambda>r. \<exists>s. Website_URL_cell r = Str s) rows"
  shows "\<exists>leads. with_ids (safety_load_existing md5 rows) = Inr leads"
proof -
  from assms obtain kept where "filter_records safety_is_valid_website_cell rows = Inr kept"
    using filter_records_texts [of rows safety_is_valid_website_cell]
    by (auto simp: is_valid_website_cell_Str)
  then show ?thesis
    by (simp add: safety_load_existing_def with_ids_Inr_iff list_all_iff)
qed

lemma b2b_reload_total:
  assumes "list_all (\<lambda>r. \<exists>n p. Company_Name_cell r = Str n \<and> Phone_Number_cell r = Str p) rows"
  shows "\<exists>leads. with_ids (b2b_load_existing md5 rows) = Inr leads"
proof -
  from assms have "list_all (\<lambda>p. snd p \<noteq> None) (b2b_load_existing md5 rows)"
    by (induction rows) auto
  then show ?thesis by (simp add: with_ids_Inr_iff)
qed

section \<open>The emails that are persisted\<close>

lemma saved_rows_append: "saved_rows (a @ b) = saved_rows a @ saved_rows b"
  by (induction a rule: saved_rows.induct) simp_all

lemma saved_rows_none: "(\<And>rs. Save rs \<notin> set es) \<Longrightarrow> saved_rows es = []"
  by (induction es rule: saved_rows.induct) auto

lemma saved_rows_load_page: "saved_rows (snd (load_page pw p)) = []"
  using load_page_events [of _ pw p] by (intro saved_rows_none) fastforce

lemma saved_rows_fetch_emails: "saved_rows (snd (snd (fetch_emails ext dws i ls b))) = []"
  using fetch_emails_events [of _ ext dws i ls b] by (intro saved_rows_none) fastforce

lemma saved_rows_safety_fetch_emails: "saved_rows (snd (snd (safety_fetch_emails dws i ls b))) = []"
  using safety_fetch_emails_events [of _ dws i ls b] by (intro saved_rows_none) fastforce

lemma saved_rows_restart [simp]: "saved_rows (if c then [Quit, Sleep 3, Create] else []) = []"
  by simp

lemma map_filter_source: "y \<in> set (List.map_filter f xs) \<Longrightarrow> \<exists>x. x \<in> set xs \<and> f x = Some y"
  by (auto simp: List.map_filter_def)

lemma get_listings_parsed:
  "get_listings_from_page prs pv = Some ls \<Longrightarrow> l \<in> set ls \<Longrightarrow> \<exists>frag. prs frag = Some l"
  by (cases pv) (auto simp: get_listings_from_page_def dest: map_filter_source)

lemma email_set_fine:
  "list_all2 (email_set valid) a b \<Longrightarrow> list_all (email_fine valid) a \<Longrightarrow> list_all (email_fine valid) b"
proof (induction rule: list_all2_induct)
  case Nil
  then show ?case by simp
next
  case (Cons x xs y ys)
  then show ?case by (auto simp: email_set_def email_fine_def)
qed

lemma email_set_ids: "list_all2 (email_set valid) a b \<Longrightarrow> map lead_id b = map lead_id a"
  by (induction rule: list_all2_induct) (auto simp: email_set_def)

lemma email_set_websites: "list_all2 (email_set valid) a b \<Longrightarrow> map Website_URL b = map Website_URL a"
  by (induction rule: list_all2_induct) (auto simp: email_set_def)

lemma email_set_keep:
  "list_all2 (email_set valid) a b \<Longrightarrow> list_all (keep v) a \<Longrightarrow> list_all (keep v) b"
  by (induction rule: list_all2_induct) (auto simp: email_set_def keep_def)

lemma save_rows_fine:
  "save_rows kp leads = Some rows \<Longrightarrow> list_all (email_fine valid) leads \<Longrightarrow>
   list_all (email_fine valid) rows"
  by (auto simp: save_rows_def list_all_iff split: if_splits)

lemma page_body_emails:
  assumes A2: "\<And>l ld. parse v l = Some ld \<Longrightarrow> email_fine valid ld"
    and A3: "\<And>dw u. extract_email v dw u = [] \<or> extract_email v dw u = BLOCKED \<or>
                     valid (extract_email v dw u)"
    and I: "emails_fine valid st"
  shows "emails_fine valid (flow_state (page_body v pw ex page st))"
proof (cases rule: page_body_cases [where v=v and pw=pw and page=page and ex=ex and st=st])
  case Raises
  with I show ?thesis by (simp add: emails_fine_def saved_rows_append saved_rows_load_page)
next
  case Empty
  with I show ?thesis by (simp add: emails_fine_def saved_rows_append saved_rows_load_page)
next
  case (Dupes ls)
  with I show ?thesis by (simp add: emails_fine_def saved_rows_append saved_rows_load_page)
next
  case (New ls new blocked ev st3 restart)
  let ?dd = "fst (filter_dupes ex (local_ids st) ls)"
  have "list_all (email_fine valid) ?dd"
  proof -
    { fix l assume "l \<in> set ?dd"
      then have "l \<in> set ls" using filter_dupes_fresh by blast
      with New(1) obtain frag where "parse v frag = Some l"
        unfolding page_listings_def using get_listings_parsed by blast
      then have "email_fine valid l" by (rule A2) }
    then show ?thesis by (simp add: list_all_iff)
  qed
  moreover have "list_all2 (email_set valid) ?dd new"
    using fetch_emails_leads [of "extract_email v" valid ?dd "detail pw" 0 "blocked_count st", OF A3]
      New(3) by simp
  ultimately have new: "list_all (email_fine valid) new" using email_set_fine by blast
  with I have all: "list_all (email_fine valid) (all_leads st @ new)"
    by (simp add: emails_fine_def)
  have ev: "saved_rows ev = []"
    using saved_rows_fetch_emails [of "extract_email v" "detail pw" 0 ?dd "blocked_count st"] New(3)
    by simp
  have rs: "saved_rows restart = []" by (simp add: New(5))
  have tr3: "saved_rows (trace st3) = saved_rows (trace st)"
    by (simp add: New(4) saved_rows_append saved_rows_load_page ev)
  have a3: "all_leads st3 = all_leads st @ new" "artifact st3 = artifact st"
    by (simp_all add: New(4))
  show ?thesis
  proof (cases "save_rows (keep v) (all_leads st @ new)")
    case None
    with New(6) I all tr3 a3 rs show ?thesis
      by (simp add: emails_fine_def saved_rows_append)
  next
    case (Some rows)
    with all have rows: "list_all (email_fine valid) rows" using save_rows_fine by blast
    show ?thesis
    proof (cases "save_ok pw")
      case True
      with Some New(6) I all tr3 a3 rs rows show ?thesis
        by (simp add: emails_fine_def saved_rows_append)
    next
      case False
      with Some New(6) I all tr3 a3 show ?thesis
        by (simp add: emails_fine_def saved_rows_append)
    qed
  qed
qed

lemma pages_loop_emails:
  assumes A2: "\<And>l ld. parse v l = Some ld \<Longrightarrow> email_fine valid ld"
    and A3: "\<And>dw u. extract_email v dw u = [] \<or> extract_email v dw u = BLOCKED \<or>
                     valid (extract_email v dw u)"
  shows "emails_fine valid st \<Longrightarrow> emails_fine valid (snd (pages_loop v w ex ps st))"
proof (induction ps arbitrary: st)
  case Nil
  then show ?case by simp
next
  case (Cons x xs)
  have i: "emails_fine valid (flow_state (page_body v (w x) ex x st))"
    using A2 A3 Cons.prems by (rule page_body_emails)
  show ?case
  proof (cases "page_body v (w x) ex x st")
    case (Next st')
    with i Cons.IH [of st'] show ?thesis by simp
  next
    case (Break st')
    with i show ?thesis by simp
  next
    case (Raise st')
    with i show ?thesis by simp
  qed
qed

lemma initial_state_emails:
  "list_all (email_fine valid) leads \<Longrightarrow> list_all (email_fine valid) found \<Longrightarrow>
   emails_fine valid (initial_state leads found)"
  by (simp add: initial_state_def emails_fine_def)

lemma task_body_emails:
  assumes A2: "\<And>l ld. parse v l = Some ld \<Longrightarrow> email_fine valid ld"
    and A3: "\<And>dw u. extract_email v dw u = [] \<or> extract_email v dw u = BLOCKED \<or>
                     valid (extract_email v dw u)"
    and I: "emails_fine valid st0"
  shows "emails_fine valid (snd (task_body v w f ex st0))"
proof -
  let ?r = "pages_loop v w ex [1..<Suc (MAX_PAGES v)] st0"
  have i: "emails_fine valid (snd ?r)"
    using A2 A3 I by (rule pages_loop_emails)
  show ?thesis
  proof (cases "fst ?r")
    case False
    with i show ?thesis
      by (simp add: task_body_def case_prod_beta emails_fine_def saved_rows_append)
  next
    case True
    show ?thesis
    proof (cases "save_rows (keep v) (all_leads (snd ?r))")
      case None
      with True i show ?thesis
        by (simp add: task_body_def case_prod_beta emails_fine_def saved_rows_append)
    next
      case (Some rows')
      with i have "list_all (email_fine valid) rows'"
        using save_rows_fine by (auto simp: emails_fine_def)
      with True Some i show ?thesis
        by (simp add: task_body_def case_prod_beta emails_fine_def saved_rows_append)
    qed
  qed
qed

lemma reloaded_emails:
  assumes "with_ids recs = Inr leads"
    and "\<And>r i. (r, i) \<in> set recs \<Longrightarrow> r \<in> set rows"
    and "list_all (email_fine valid) (artifact_rows rows)"
  shows "list_all (email_fine valid) leads"
proof -
  { fix l assume "l \<in> set leads"
    with assms(1) obtain r i where ri: "(r, Some i) \<in> set recs" "l = lead_of_row r i"
      by (rule with_ids_source)
    from ri(1) have "r \<in> set rows" by (rule assms(2))
    with assms(3) have "email_fine valid (lead_of_row r [])"
      by (simp add: artifact_rows_def list_all_iff)
    with ri(2) have "email_fine valid l" by (simp add: email_fine_def lead_of_row_def) }
  then show ?thesis by (simp add: list_all_iff)
qed

lemma scrape_search_emails:
  assumes A2: "\<And>l ld. parse v l = Some ld \<Longrightarrow> email_fine valid ld"
    and A3: "\<And>dw u. extract_email v dw u = [] \<or> extract_email v dw u = BLOCKED \<or>
                     valid (extract_email v dw u)"
    and A4: "\<And>r i. (r, i) \<in> set (load_existing v rows) \<Longrightarrow> r \<in> set rows"
    and rows: "list_all (email_fine valid) (artifact_rows rows)"
  shows "emails_fine valid (snd (scrape_search v w f ex rows))"
proof (cases "with_ids (load_existing v rows)")
  case (Inl e)
  with rows show ?thesis
    by (simp add: scrape_search_def initial_state_emails)
next
  case (Inr leads)
  from Inr A4 rows have "list_all (email_fine valid) leads" by (rule reloaded_emails)
  then have "emails_fine valid (initial_state leads (artifact_rows rows))"
    using rows by (rule initial_state_emails)
  with A2 A3 have "emails_fine valid
      (snd (task_body v w f ex (initial_state leads (artifact_rows rows))))"
    by (rule task_body_emails)
  with Inr show ?thesis by (simp add: scrape_search_def)
qed

lemma janitor_parse_email: "janitor_parse_listing md5 today l = Some ld \<Longrightarrow> email_fine valid ld"
  by (auto simp: janitor_parse_listing_def Let_def make_lead_def email_fine_def
           split: if_splits sum.splits)

lemma b2b_parse_email: "b2b_parse_listing md5 lbl today l = Some ld \<Longrightarrow> email_fine valid ld"
  by (auto simp: b2b_parse_listing_def Let_def make_lead_def email_fine_def
           split: if_splits sum.splits)

lemma safety_parse_email: "safety_parse_listing md5 today l = Some ld \<Longrightarrow> email_fine valid ld"
  by (auto simp: safety_parse_listing_def Let_def make_lead_def email_fine_def
           split: if_splits sum.splits)

lemma janitor_scrape_emails:
  assumes "list_all (email_fine janitor_is_valid_email) (artifact_rows rows)"
  shows "emails_fine janitor_is_valid_email (snd (scrape_search (janitor_ops md5 today) w f ex rows))"
proof (rule scrape_search_emails)
  show "\<And>l ld. parse (janitor_ops md5 today) l = Some ld \<Longrightarrow> email_fine janitor_is_valid_email ld"
    by (simp add: janitor_parse_email)
  show "\<And>dw u. extract_email (janitor_ops md5 today) dw u = [] \<or>
      extract_email (janitor_ops md5 today) dw u = BLOCKED \<or>
      janitor_is_valid_email (extract_email (janitor_ops md5 today) dw u)"
    by (simp add: janitor_ops_def janitor_extract_email_from_detail_cases)
  show "\<And>r i. (r, i) \<in> set (load_existing (janitor_ops md5 today) rows) \<Longrightarrow> r \<in> set rows"
    using janitor_load_existing_source by (simp add: janitor_ops_def)
  show "list_all (email_fine janitor_is_valid_email) (artifact_rows rows)" by (rule assms)
qed

lemma b2b_scrape_emails:
  assumes "list_all (email_fine b2b_is_valid_email) (artifact_rows rows)"
  shows "emails_fine b2b_is_valid_email (snd (scrape_search (b2b_ops md5 lbl today) w f ex rows))"
proof (rule scrape_search_emails)
  show "\<And>l ld. parse (b2b_ops md5 lbl today) l = Some ld \<Longrightarrow> email_fine b2b_is_valid_email ld"
    by (simp add: b2b_parse_email)
  show "\<And>dw u. extract_email (b2b_ops md5 lbl today) dw u = [] \<or>
      extract_email (b2b_ops md5 lbl today) dw u = BLOCKED \<or>
      b2b_is_valid_email (extract_email (b2b_ops md5 lbl today) dw u)"
    by (simp add: b2b_ops_def b2b_extract_email_from_detail_cases)
  show "\<And>r i. (r, i) \<in> set (load_existing (b2b_ops md5 lbl today) rows) \<Longrightarrow> r \<in> set rows"
    using b2b_load_existing_source by (simp add: b2b_ops_def)
  show "list_all (email_fine b2b_is_valid_email) (artifact_rows rows)" by (rule assms)
qed

lemma safety_page_body_emails:
  assumes I: "emails_fine valid_email st"
  shows "emails_fine valid_email (flow_state (safety_page_body md5 today pw ex pg st))"
proof (cases rule: safety_page_body_cases [where dg=md5 and today=today and pw=pw and pg=pg and ex=ex and st=st])
  case NavFails
  with I show ?thesis by (simp add: emails_fine_def saved_rows_append)
next
  case Raises
  with I show ?thesis by (simp add: emails_fine_def saved_rows_append)
next
  case Empty
  with I show ?thesis by (simp add: emails_fine_def saved_rows_append)
next
  case (Dupes ls)
  with I show ?thesis by (simp add: emails_fine_def saved_rows_append)
next
  case (New ls new_lst new blocks ev st3 restart)
  have "list_all (email_fine valid_email) new_lst"
  proof -
    { fix l assume "l \<in> set new_lst"
      then have "l \<in> set ls" by (simp add: New(3))
      with New(2) obtain frag where "safety_parse_listing md5 today frag = Some l"
        unfolding safety_page_listings_def using get_listings_parsed by blast
      then have "email_fine valid_email l" by (rule safety_parse_email) }
    then show ?thesis by (simp add: list_all_iff)
  qed
  moreover have "list_all2 (email_set valid_email) new_lst new"
    using safety_fetch_emails_leads [of new_lst "detail pw" 0 "blocked_count st"] New(5) by simp
  ultimately have new: "list_all (email_fine valid_email) new" using email_set_fine by blast
  with I have all: "list_all (email_fine valid_email) (all_leads st @ new)"
    by (simp add: emails_fine_def)
  have ev: "saved_rows ev = []"
    using saved_rows_safety_fetch_emails [of "detail pw" 0 new_lst "blocked_count st"] New(5)
    by simp
  have rs: "saved_rows restart = []" by (simp add: New(7))
  have tr3: "saved_rows (trace st3) = saved_rows (trace st)"
    by (simp add: New(6) saved_rows_append ev)
  have a3: "all_leads st3 = all_leads st @ new" "artifact st3 = artifact st"
    by (simp_all add: New(6))
  show ?thesis
  proof (cases "save_xlsx (all_leads st @ new)")
    case None
    with New(8) I all tr3 a3 rs show ?thesis
      by (simp add: emails_fine_def saved_rows_append)
  next
    case (Some rows)
    with all have rows: "list_all (email_fine valid_email) rows"
      unfolding save_xlsx_def using save_rows_fine by blast
    show ?thesis
    proof (cases "save_ok pw")
      case True
      with Some New(8) I all tr3 a3 rs rows show ?thesis
        by (simp add: emails_fine_def saved_rows_append)
    next
      case False
      with Some New(8) I all tr3 a3 show ?thesis
        by (simp add: emails_fine_def saved_rows_append)
    qed
  qed
qed

lemma safety_pages_loop_emails:
  "emails_fine valid_email st \<Longrightarrow>
   emails_fine valid_email (snd (safety_pages_loop md5 today w ex ps st))"
proof (induction ps arbitrary: st)
  case Nil
  then show ?case by simp
next
  case (Cons x xs)
  have i: "emails_fine valid_email (flow_state (safety_page_body md5 today (w x) ex x st))"
    using Cons.prems by (rule safety_page_body_emails)
  show ?case
  proof (cases "safety_page_body md5 today (w x) ex x st")
    case (Next st')
    with i Cons.IH [of st'] show ?thesis by simp
  next
    case (Break st')
    with i show ?thesis by simp
  next
    case (Raise st')
    with i show ?thesis by simp
  qed
qed

lemma safety_task_body_emails:
  assumes "emails_fine valid_email st0"
  shows "emails_fine valid_email (snd (safety_task_body md5 today w ex st0))"
proof -
  let ?r = "safety_pages_loop md5 today w ex [1..<Suc SAFETY_MAX_PAGES] st0"
  have "emails_fine valid_email (snd ?r)"
    using assms by (rule safety_pages_loop_emails)
  then show ?thesis
    by (simp add: safety_task_body_def case_prod_beta emails_fine_def saved_rows_append)
qed

lemma scrape_emails:
  assumes rows: "list_all (email_fine valid_email) (artifact_rows rows)"
  shows "emails_fine valid_email (snd (scrape md5 today w ex rows))"
proof (cases "with_ids (safety_load_existing md5 rows)")
  case (Inl e)
  with rows show ?thesis
    by (simp add: scrape_def initial_state_emails)
next
  case (Inr leads)
  from Inr safety_load_existing_source rows have "list_all (email_fine valid_email) leads"
    by (rule reloaded_emails)
  then have "emails_fine valid_email (initial_state leads (artifact_rows rows))"
    using rows by (rule initial_state_emails)
  then have "emails_fine valid_email
      (snd (safety_task_body md5 today w ex (initial_state leads (artifact_rows rows))))"
    by (rule safety_task_body_emails)
  with Inr show ?thesis by (simp add: scrape_def)
qed

lemma email_fine_not_BLOCKED: "email_fine (email_ok bl) l \<Longrightarrow> Email_Address l \<noteq> BLOCKED"
  by (auto simp: email_fine_def BLOCKED_def dest: email_ok_not_BLOCKED)

text \<open>
  C10. Every operation that writes a lead's email field keeps this invariant: the email
  of every lead in memory, of every row of the artifact and of every row of every write is
  the empty string or a string that the email validator accepts, provided the rows found
  in the artifact at the start are so; in particular it is never the blocked sentinel,
  which the validator rejects. Janitor, B2B and safety.
\<close>

theorem persisted_emails_are_valid:
  "(list_all (email_fine janitor_is_valid_email) (artifact_rows rows)
      \<longrightarrow> emails_fine janitor_is_valid_email
            (snd (scrape_search (janitor_ops md5 today) w flush_ok existing_ids rows))) \<and>
   (list_all (email_fine b2b_is_valid_email) (artifact_rows rows)
      \<longrightarrow> emails_fine b2b_is_valid_email
            (snd (scrape_search (b2b_ops md5 search_label today) w flush_ok existing_ids rows))) \<and>
   (list_all (email_fine valid_email) (artifact_rows rows)
      \<longrightarrow> emails_fine valid_email (snd (scrape md5 today w existing_ids rows))) \<and>
   (email_fine janitor_is_valid_email l \<or> email_fine b2b_is_valid_email l \<or> email_fine valid_email l
      \<longrightarrow> Email_Address l \<noteq> BLOCKED)"
  using janitor_scrape_emails [of rows md5 today w flush_ok existing_ids]
    b2b_scrape_emails [of rows md5 search_label today w flush_ok existing_ids]
    scrape_emails [of rows md5 today w existing_ids]
    email_fine_not_BLOCKED [of JANITOR_EMAIL_BLACKLIST l]
    email_fine_not_BLOCKED [of B2B_EMAIL_BLACKLIST l]
    email_fine_not_BLOCKED [of SAFETY_EMAIL_BLACKLIST l]
  unfolding janitor_is_valid_email_def b2b_is_valid_email_def valid_email_def
  by blast

theorem persisted_emails_are_valid_witness:
  "emails_fine janitor_is_valid_email
     (snd (scrape_search (janitor_ops (\<lambda>k. k) ''1/2/26'') (blocked_world acme_site) True {} [])) \<and>
   map Email_Address (artifact
     (snd (scrape_search (janitor_ops (\<lambda>k. k) ''1/2/26'') (blocked_world acme_site) True {} [])))
     = [''info@acme.com''] \<and>
   emails_fine janitor_is_valid_email
     (snd (scrape_search (janitor_ops (\<lambda>k. k) ''1/2/26'') (blocked_world (\<lambda>u. None)) True {} [])) \<and>
   map Email_Address (artifact
     (snd (scrape_search (janitor_ops (\<lambda>k. k) ''1/2/26'') (blocked_world (\<lambda>u. None)) True {} [])))
     = [[]] \<and>
   emails_fine valid_email (snd (scrape (\<lambda>k. k) ''1/2/26'' (blocked_world acme_site) {} [])) \<and>
   map Email_Address (artifact (snd (scrape (\<lambda>k. k) ''1/2/26'' (blocked_world acme_site) {} [])))
     = [''info@acme.com'']"
proof -
  have r: "list_all (email_fine janitor_is_valid_email) (artifact_rows [])"
    "list_all (email_fine valid_email) (artifact_rows [])"
    by (simp_all add: artifact_rows_def)
  have a: "map Email_Address (artifact
     (snd (scrape_search (janitor_ops (\<lambda>k. k) ''1/2/26'') (blocked_world acme_site) True {} [])))
     = [''info@acme.com'']"
    by code_simp
  have b: "map Email_Address (artifact
     (snd (scrape_search (janitor_ops (\<lambda>k. k) ''1/2/26'') (blocked_world (\<lambda>u. None)) True {} [])))
     = [[]]"
    by code_simp
  have c: "map Email_Address (artifact (snd (scrape (\<lambda>k. k) ''1/2/26'' (blocked_world acme_site) {} [])))
     = [''info@acme.com'']"
    by code_simp
  from persisted_emails_are_valid [of "[]" "\<lambda>k. k" "''1/2/26''" "blocked_world acme_site" True "{}"] r
  have 1: "emails_fine janitor_is_valid_email
     (snd (scrape_search (janitor_ops (\<lambda>k. k) ''1/2/26'') (blocked_world acme_site) True {} []))"
    and 3: "emails_fine valid_email (snd (scrape (\<lambda>k. k) ''1/2/26'' (blocked_world acme_site) {} []))"
    by blast+
  from persisted_emails_are_valid [of "[]" "\<lambda>k. k" "''1/2/26''" "blocked_world (\<lambda>u. None)" True "{}"] r
  have 2: "emails_fine janitor_is_valid_email
     (snd (scrape_search (janitor_ops (\<lambda>k. k) ''1/2/26'') (blocked_world (\<lambda>u. None)) True {} []))"
    by blast
  from 1 2 3 a b c show ?thesis by blast
qed

section \<open>Exceptions, the flush and the teardown\<close>

lemma session_after_Quit: "session_after b (es @ [Quit]) = False"
  by (induction b es rule: session_after.induct) simp_all

lemma save_rows_all:
  "list_all kp leads \<Longrightarrow> save_rows kp leads = (if leads = [] then None else Some leads)"
proof -
  assume "list_all kp leads"
  then have "filter kp leads = leads" by (simp add: list_all_iff)
  then show ?thesis by (simp add: save_rows_def)
qed

lemma page_body_persist:
  assumes A1: "\<And>l ld. parse v l = Some ld \<Longrightarrow> keep v ld"
    and K: "list_all (keep v) (all_leads st)"
    and P: "persisted a0 r0 (all_leads st) (artifact st)"
  shows "list_all (keep v) (all_leads (flow_state (page_body v pw ex page st))) \<and>
     ((\<exists>st'. page_body v pw ex page st = Next st' \<and> persisted a0 r0 (all_leads st') (artifact st')) \<or>
      (\<exists>st'. page_body v pw ex page st = Break st' \<and> persisted a0 r0 (all_leads st') (artifact st')) \<or>
      (\<exists>st'. page_body v pw ex page st = Raise st' \<and>
         (persisted a0 r0 (all_leads st') (artifact st') \<or>
          (save_ok pw = False \<and>
           (\<exists>new ls. all_leads st' = all_leads st @ new \<and> artifact st' = artifact st \<and>
              page_listings v pw page = Some ls \<and>
              set (map lead_id new) \<subseteq> set (map lead_id ls))))))"
proof (cases rule: page_body_cases [where v=v and pw=pw and page=page and ex=ex and st=st])
  case Raises
  with K P show ?thesis by simp
next
  case Empty
  with K P show ?thesis by simp
next
  case (Dupes ls)
  with K P show ?thesis by simp
next
  case (New ls new blocked ev st3 restart)
  let ?dd = "fst (filter_dupes ex (local_ids st) ls)"
  have sub: "set ?dd \<subseteq> set ls" using filter_dupes_fresh by blast
  have "list_all (keep v) ?dd"
  proof -
    { fix l assume "l \<in> set ?dd"
      with sub have "l \<in> set ls" by blast
      with New(1) obtain frag where "parse v frag = Some l"
        unfolding page_listings_def using get_listings_parsed by blast
      then have "keep v l" by (rule A1) }
    then show ?thesis by (simp add: list_all_iff)
  qed
  moreover have l2: "list_all2 (email_set (\<lambda>e. True)) ?dd new"
    using fetch_emails_leads [of "extract_email v" "\<lambda>e. True" ?dd "detail pw" 0 "blocked_count st"]
      New(3) by simp
  ultimately have kn: "list_all (keep v) new" using email_set_keep by blast
  with K have kall: "list_all (keep v) (all_leads st @ new)" by simp
  have ne: "new \<noteq> []"
    using fetch_emails_Nil_iff [of "extract_email v" "detail pw" 0 ?dd "blocked_count st"] New(2,3)
    by simp
  from l2 have "map lead_id new = map lead_id ?dd" by (rule email_set_ids)
  with sub have ids: "set (map lead_id new) \<subseteq> set (map lead_id ls)" by auto
  from kall ne have sr: "save_rows (keep v) (all_leads st @ new) = Some (all_leads st @ new)"
    by (simp add: save_rows_all)
  have a3: "all_leads st3 = all_leads st @ new" "artifact st3 = artifact st"
    by (simp_all add: New(4))
  show ?thesis
  proof (cases "save_ok pw")
    case True
    with sr New(6) a3 kall show ?thesis by (simp add: persisted_def)
  next
    case False
    with sr New(6) have "page_body v pw ex page st = Raise (st3\<lparr>trace := trace st3 @ [SaveError]\<rparr>)"
      by simp
    with False a3 kall New(1) ids show ?thesis by simp
  qed
qed

lemma pages_loop_persist:
  assumes A1: "\<And>l ld. parse v l = Some ld \<Longrightarrow> keep v ld"
  shows "list_all (keep v) (all_leads st) \<Longrightarrow> persisted a0 r0 (all_leads st) (artifact st) \<Longrightarrow>
     list_all (keep v) (all_leads (snd (pages_loop v w ex ps st))) \<and>
     (persisted a0 r0 (all_leads (snd (pages_loop v w ex ps st)))
                      (artifact (snd (pages_loop v w ex ps st))) \<or>
      (fst (pages_loop v w ex ps st) \<and>
       (\<exists>p prev new ls. p \<in> set ps \<and> save_ok (w p) = False \<and>
          all_leads (snd (pages_loop v w ex ps st)) = prev @ new \<and>
          persisted a0 r0 prev (artifact (snd (pages_loop v w ex ps st))) \<and>
          page_listings v (w p) p = Some ls \<and>
          set (map lead_id new) \<subseteq> set (map lead_id ls))))"
proof (induction ps arbitrary: st)
  case Nil
  then show ?case by simp
next
  case (Cons x xs)
  note pb = page_body_persist [of v st a0 r0 "w x" ex x, OF A1 Cons.prems]
  show ?case
  proof (cases "page_body v (w x) ex x st")
    case (Next st')
    with pb have "list_all (keep v) (all_leads st')" "persisted a0 r0 (all_leads st') (artifact st')"
      by auto
    from Cons.IH [OF this] Next show ?thesis by (simp; blast)
  next
    case (Break st')
    with pb show ?thesis by auto
  next
    case (Raise st')
    with pb have k: "list_all (keep v) (all_leads st')"
      and d: "persisted a0 r0 (all_leads st') (artifact st') \<or>
          (save_ok (w x) = False \<and>
           (\<exists>new ls. all_leads st' = all_leads st @ new \<and> artifact st' = artifact st \<and>
              page_listings v (w x) x = Some ls \<and>
              set (map lead_id new) \<subseteq> set (map lead_id ls)))"
      by auto
    from d show ?thesis
    proof
      assume "persisted a0 r0 (all_leads st') (artifact st')"
      with k Raise show ?thesis by simp
    next
      assume "save_ok (w x) = False \<and>
           (\<exists>new ls. all_leads st' = all_leads st @ new \<and> artifact st' = artifact st \<and>
              page_listings v (w x) x = Some ls \<and>
              set (map lead_id new) \<subseteq> set (map lead_id ls))"
      then obtain new ls where "save_ok (w x) = False" "all_leads st' = all_leads st @ new"
        "artifact st' = artifact st" "page_listings v (w x) x = Some ls"
        "set (map lead_id new) \<subseteq> set (map lead_id ls)" by blast
      with Cons.prems(2) have "\<exists>p prev new ls. p \<in> set (x # xs) \<and> save_ok (w p) = False \<and>
          all_leads st' = prev @ new \<and> persisted a0 r0 prev (artifact st') \<and>
          page_listings v (w p) p = Some ls \<and> set (map lead_id new) \<subseteq> set (map lead_id ls)"
        by (intro exI [of _ x] exI [of _ "all_leads st"] exI [of _ new] exI [of _ ls]) simp
      with k Raise show ?thesis by simp
    qed
  qed
qed

lemma task_body_persist:
  assumes A1: "\<And>l ld. parse v l = Some ld \<Longrightarrow> keep v ld"
    and K0: "list_all (keep v) (all_leads st0)"
    and R: "task_body v w flush_ok ex st0 = (e, st)"
  shows "session_after False (trace st) = False \<and> e \<noteq> Uncaught \<and>
     (e = Caught \<longrightarrow> artifact st = all_leads st \<or> all_leads st = []) \<and>
     (e = Escaped \<longrightarrow> flush_ok = False) \<and>
     (e = Completed \<longrightarrow> persisted (all_leads st0) (artifact st0) (all_leads st) (artifact st)) \<and>
     one_page_behind (\<lambda>p. page_listings v (w p) p) (\<lambda>p. save_ok (w p)) [1..<Suc (MAX_PAGES v)]
       (all_leads st0) (artifact st0) (all_leads st) (artifact st)"
proof -
  let ?a0 = "all_leads st0"
  let ?art = "artifact st0"
  let ?ps = "[1..<Suc (MAX_PAGES v)]"
  let ?r = "pages_loop v w ex ?ps st0"
  let ?s = "snd ?r"
  have P0: "persisted ?a0 ?art (all_leads st0) (artifact st0)"
    by (simp add: persisted_def)
  have inv: "list_all (keep v) (all_leads ?s) \<and>
      (persisted ?a0 ?art (all_leads ?s) (artifact ?s) \<or>
      (fst ?r \<and>
       (\<exists>p prev new ls. p \<in> set ?ps \<and> save_ok (w p) = False \<and>
          all_leads ?s = prev @ new \<and> persisted ?a0 ?art prev (artifact ?s) \<and>
          page_listings v (w p) p = Some ls \<and>
          set (map lead_id new) \<subseteq> set (map lead_id ls))))"
  proof (rule pages_loop_persist)
    show "\<And>l ld. parse v l = Some ld \<Longrightarrow> keep v ld" by (rule A1)
    show "list_all (keep v) (all_leads st0)" by (rule K0)
    show "persisted ?a0 ?art (all_leads st0) (artifact st0)"
      by (rule P0)
  qed
  then have K: "list_all (keep v) (all_leads ?s)"
    and D: "persisted ?a0 ?art (all_leads ?s) (artifact ?s) \<or>
      (fst ?r \<and>
       (\<exists>p prev new ls. p \<in> set ?ps \<and> save_ok (w p) = False \<and>
          all_leads ?s = prev @ new \<and> persisted ?a0 ?art prev (artifact ?s) \<and>
          page_listings v (w p) p = Some ls \<and>
          set (map lead_id new) \<subseteq> set (map lead_id ls)))"
    by blast+
  have opb: "one_page_behind (\<lambda>p. page_listings v (w p) p) (\<lambda>p. save_ok (w p)) ?ps
       ?a0 ?art (all_leads ?s) (artifact ?s)"
    using D unfolding one_page_behind_def
  proof
    assume "persisted ?a0 ?art (all_leads ?s) (artifact ?s)"
    then show "\<exists>prev new. all_leads ?s = prev @ new \<and> persisted ?a0 ?art prev (artifact ?s) \<and>
        (new = [] \<or> (\<exists>p ls. p \<in> set ?ps \<and> save_ok (w p) = False \<and>
           page_listings v (w p) p = Some ls \<and> set (map lead_id new) \<subseteq> set (map lead_id ls)))"
      by (intro exI [of _ "all_leads ?s"] exI [of _ "[]"]) simp
  next
    assume "fst ?r \<and>
       (\<exists>p prev new ls. p \<in> set ?ps \<and> save_ok (w p) = False \<and>
          all_leads ?s = prev @ new \<and> persisted ?a0 ?art prev (artifact ?s) \<and>
          page_listings v (w p) p = Some ls \<and>
          set (map lead_id new) \<subseteq> set (map lead_id ls))"
    then show "\<exists>prev new. all_leads ?s = prev @ new \<and> persisted ?a0 ?art prev (artifact ?s) \<and>
        (new = [] \<or> (\<exists>p ls. p \<in> set ?ps \<and> save_ok (w p) = False \<and>
           page_listings v (w p) p = Some ls \<and> set (map lead_id new) \<subseteq> set (map lead_id ls)))"
      by blast
  qed
  have sr: "save_rows (keep v) (all_leads ?s) = (if all_leads ?s = [] then None else Some (all_leads ?s))"
    using K by (rule save_rows_all)
  show ?thesis
  proof (cases "fst ?r")
    case False
    with R have e: "e = Completed" and st: "st = ?s\<lparr>trace := trace ?s @ [Quit]\<rparr>"
      by (simp_all add: task_body_def case_prod_beta)
    from D False have "persisted ?a0 ?art (all_leads ?s) (artifact ?s)" by blast
    with e st opb show ?thesis by (simp add: session_after_Quit)
  next
    case True
    show ?thesis
    proof (cases "all_leads ?s = []")
      case empty: True
      with True sr R have e: "e = Caught" and st: "st = ?s\<lparr>trace := trace ?s @ [Quit]\<rparr>"
        by (simp_all add: task_body_def case_prod_beta)
      with empty opb show ?thesis by (simp add: session_after_Quit)
    next
      case nonempty: False
      show ?thesis
      proof (cases flush_ok)
        case flush: True
        with True nonempty sr R have e: "e = Caught"
          and st: "st = ?s\<lparr>artifact := all_leads ?s, trace := trace ?s @ [Save (all_leads ?s), Quit]\<rparr>"
          by (simp_all add: task_body_def case_prod_beta)
        have "trace st = (trace ?s @ [Save (all_leads ?s)]) @ [Quit]" by (simp add: st)
        then have q: "session_after False (trace st) = False"
          by (simp only: session_after_Quit)
        have "one_page_behind (\<lambda>p. page_listings v (w p) p) (\<lambda>p. save_ok (w p)) ?ps
            ?a0 ?art (all_leads st) (artifact st)"
          unfolding one_page_behind_def
          by (intro exI [of _ "all_leads st"] exI [of _ "[]"]) (simp add: st persisted_def)
        with e st q show ?thesis by simp
      next
        case noflush: False
        with True nonempty sr R have e: "e = Escaped"
          and st: "st = ?s\<lparr>trace := trace ?s @ [SaveError, Quit]\<rparr>"
          by (simp_all add: task_body_def case_prod_beta)
        have "trace st = (trace ?s @ [SaveError]) @ [Quit]" by (simp add: st)
        then have q: "session_after False (trace st) = False"
          by (simp only: session_after_Quit)
        from e st q opb noflush show ?thesis by simp
      qed
    qed
  qed
qed

lemma janitor_parse_keep:
  "parse (janitor_ops md5 today) l = Some ld \<Longrightarrow> keep (janitor_ops md5 today) ld"
  using janitor_parse_listing_Some [of md5 today l ld]
  by (simp add: keep_def janitor_ops_def)

lemma b2b_parse_keep:
  "parse (b2b_ops md5 lbl today) l = Some ld \<Longrightarrow> keep (b2b_ops md5 lbl today) ld"
  by (simp add: keep_def b2b_ops_def)

lemma email_set_safety_keep:
  "list_all2 (email_set valid) a b \<Longrightarrow>
   list_all (\<lambda>l. safety_is_valid_website (Website_URL l)) a \<Longrightarrow>
   list_all (\<lambda>l. safety_is_valid_website (Website_URL l)) b"
  by (induction rule: list_all2_induct) (auto simp: email_set_def)

lemma safety_fetch_emails_Nil_iff: "fst (safety_fetch_emails dws i ls b) = [] \<longleftrightarrow> ls = []"
  by (cases ls) (simp_all add: Let_def case_prod_beta)

lemma safety_page_body_persist:
  assumes K: "list_all (\<lambda>l. safety_is_valid_website (Website_URL l)) (all_leads st)"
    and P: "persisted a0 r0 (all_leads st) (artifact st)"
  shows "list_all (\<lambda>l. safety_is_valid_website (Website_URL l))
           (all_leads (flow_state (safety_page_body md5 today pw ex pg st))) \<and>
     ((\<exists>st'. safety_page_body md5 today pw ex pg st = Next st' \<and>
             persisted a0 r0 (all_leads st') (artifact st')) \<or>
      (\<exists>st'. safety_page_body md5 today pw ex pg st = Break st' \<and>
             persisted a0 r0 (all_leads st') (artifact st')) \<or>
      (\<exists>st'. safety_page_body md5 today pw ex pg st = Raise st' \<and>
         (persisted a0 r0 (all_leads st') (artifact st') \<or>
          (save_ok pw = False \<and>
           (\<exists>new ls. all_leads st' = all_leads st @ new \<and> artifact st' = artifact st \<and>
              safety_page_listings md5 today pw = Some ls \<and>
              set (map lead_id new) \<subseteq> set (map lead_id ls))))))"
proof (cases rule: safety_page_body_cases [where dg=md5 and today=today and pw=pw and pg=pg and ex=ex and st=st])
  case NavFails
  with K P show ?thesis by simp
next
  case Raises
  with K P show ?thesis by simp
next
  case Empty
  with K P show ?thesis by simp
next
  case (Dupes ls)
  with K P show ?thesis by simp
next
  case (New ls new_lst new blocks ev st3 restart)
  have sub: "set new_lst \<subseteq> set ls" by (auto simp: New(3))
  have "list_all (\<lambda>l. safety_is_valid_website (Website_URL l)) new_lst"
  proof -
    { fix l assume "l \<in> set new_lst"
      with sub have "l \<in> set ls" by blast
      with New(2) obtain frag where "safety_parse_listing md5 today frag = Some l"
        unfolding safety_page_listings_def using get_listings_parsed by blast
      then have "safety_is_valid_website (Website_URL l)"
        using safety_parse_listing_Some by blast }
    then show ?thesis by (simp add: list_all_iff)
  qed
  moreover have l2: "list_all2 (email_set valid_email) new_lst new"
    using safety_fetch_emails_leads [of new_lst "detail pw" 0 "blocked_count st"] New(5) by simp
  ultimately have kn: "list_all (\<lambda>l. safety_is_valid_website (Website_URL l)) new"
    using email_set_safety_keep by blast
  with K have kall: "list_all (\<lambda>l. safety_is_valid_website (Website_URL l)) (all_leads st @ new)"
    by simp
  have ne: "new \<noteq> []"
    using safety_fetch_emails_Nil_iff [of "detail pw" 0 new_lst "blocked_count st"] New(4,5)
    by simp
  from l2 have "map lead_id new = map lead_id new_lst" by (rule email_set_ids)
  with sub have ids: "set (map lead_id new) \<subseteq> set (map lead_id ls)" by auto
  from kall ne have sr: "save_xlsx (all_leads st @ new) = Some (all_leads st @ new)"
    by (simp add: save_xlsx_def save_rows_all)
  have a3: "all_leads st3 = all_leads st @ new" "artifact st3 = artifact st"
    by (simp_all add: New(6))
  show ?thesis
  proof (cases "save_ok pw")
    case True
    with sr New(8) a3 kall show ?thesis by (simp add: persisted_def)
  next
    case False
    with sr New(8) have "safety_page_body md5 today pw ex pg st
        = Raise (st3\<lparr>trace := trace st3 @ [SaveError]\<rparr>)"
      by simp
    with False a3 kall New(2) ids show ?thesis by simp
  qed
qed

lemma safety_pages_loop_persist:
  "list_all (\<lambda>l. safety_is_valid_website (Website_URL l)) (all_leads st) \<Longrightarrow>
   persisted a0 r0 (all_leads st) (artifact st) \<Longrightarrow>
     list_all (\<lambda>l. safety_is_valid_website (Website_URL l))
        (all_leads (snd (safety_pages_loop md5 today w ex ps st))) \<and>
     (persisted a0 r0 (all_leads (snd (safety_pages_loop md5 today w ex ps st)))
                      (artifact (snd (safety_pages_loop md5 today w ex ps st))) \<or>
      (fst (safety_pages_loop md5 today w ex ps st) \<and>
       (\<exists>p prev new ls. p \<in> set ps \<and> save_ok (w p) = False \<and>
          all_leads (snd (safety_pages_loop md5 today w ex ps st)) = prev @ new \<and>
          persisted a0 r0 prev (artifact (snd (safety_pages_loop md5 today w ex ps st))) \<and>
          safety_page_listings md5 today (w p) = Some ls \<and>
          set (map lead_id new) \<subseteq> set (map lead_id ls))))"
proof (induction ps arbitrary: st)
  case Nil
  then show ?case by simp
next
  case (Cons x xs)
  note pb = safety_page_body_persist [of st a0 r0 md5 today "w x" ex x, OF Cons.prems]
  show ?case
  proof (cases "safety_page_body md5 today (w x) ex x st")
    case (Next st')
    with pb have "list_all (\<lambda>l. safety_is_valid_website (Website_URL l)) (all_leads st')"
      "persisted a0 r0 (all_leads st') (artifact st')"
      by auto
    from Cons.IH [OF this] Next show ?thesis by (simp; blast)
  next
    case (Break st')
    with pb show ?thesis by auto
  next
    case (Raise st')
    with pb have k: "list_all (\<lambda>l. safety_is_valid_website (Website_URL l)) (all_leads st')"
      and d: "persisted a0 r0 (all_leads st') (artifact st') \<or>
          (save_ok (w x) = False \<and>
           (\<exists>new ls. all_leads st' = all_leads st @ new \<and> artifact st' = artifact st \<and>
              safety_page_listings md5 today (w x) = Some ls \<and>
              set (map lead_id new) \<subseteq> set (map lead_id ls)))"
      by auto
    from d show ?thesis
    proof
      assume "persisted a0 r0 (all_leads st') (artifact st')"
      with k Raise show ?thesis by simp
    next
      assume "save_ok (w x) = False \<and>
           (\<exists>new ls. all_leads st' = all_leads st @ new \<and> artifact st' = artifact st \<and>
              safety_page_listings md5 today (w x) = Some ls \<and>
              set (map lead_id new) \<subseteq> set (map lead_id ls))"
      then obtain new ls where "save_ok (w x) = False" "all_leads st' = all_leads st @ new"
        "artifact st' = artifact st" "safety_page_listings md5 today (w x) = Some ls"
        "set (map lead_id new) \<subseteq> set (map lead_id ls)" by blast
      with Cons.prems(2) have "\<exists>p prev new ls. p \<in> set (x # xs) \<and> save_ok (w p) = False \<and>
          all_leads st' = prev @ new \<and> persisted a0 r0 prev (artifact st') \<and>
          safety_page_listings md5 today (w p) = Some ls \<and>
          set (map lead_id new) \<subseteq> set (map lead_id ls)"
        by (intro exI [of _ x] exI [of _ "all_leads st"] exI [of _ new] exI [of _ ls]) simp
      with k Raise show ?thesis by simp
    qed
  qed
qed

lemma safety_task_body_persist:
  assumes K0: "list_all (\<lambda>l. safety_is_valid_website (Website_URL l)) (all_leads st0)"
    and R: "safety_task_body md5 today w ex st0 = (e, st)"
  shows "session_after False (trace st) = False \<and>
     (e = Completed \<or> e = Caught) \<and>
     (e = Completed \<longrightarrow>
        persisted (all_leads st0) (artifact st0) (all_leads st) (artifact st)) \<and>
     one_page_behind (\<lambda>p. safety_page_listings md5 today (w p)) (\<lambda>p. save_ok (w p))
       [1..<Suc SAFETY_MAX_PAGES]
       (all_leads st0) (artifact st0) (all_leads st) (artifact st)"
proof -
  let ?a0 = "all_leads st0"
  let ?art = "artifact st0"
  let ?ps = "[1..<Suc SAFETY_MAX_PAGES]"
  let ?r = "safety_pages_loop md5 today w ex ?ps st0"
  let ?s = "snd ?r"
  have P0: "persisted ?a0 ?art (all_leads st0)
              (artifact st0)"
    by (simp add: persisted_def)
  have inv: "list_all (\<lambda>l. safety_is_valid_website (Website_URL l)) (all_leads ?s) \<and>
      (persisted ?a0 ?art (all_leads ?s) (artifact ?s) \<or>
      (fst ?r \<and>
       (\<exists>p prev new ls. p \<in> set ?ps \<and> save_ok (w p) = False \<and>
          all_leads ?s = prev @ new \<and> persisted ?a0 ?art prev (artifact ?s) \<and>
          safety_page_listings md5 today (w p) = Some ls \<and>
          set (map lead_id new) \<subseteq> set (map lead_id ls))))"
    using K0 P0 by (rule safety_pages_loop_persist)
  then have D: "persisted ?a0 ?art (all_leads ?s) (artifact ?s) \<or>
      (fst ?r \<and>
       (\<exists>p prev new ls. p \<in> set ?ps \<and> save_ok (w p) = False \<and>
          all_leads ?s = prev @ new \<and> persisted ?a0 ?art prev (artifact ?s) \<and>
          safety_page_listings md5 today (w p) = Some ls \<and>
          set (map lead_id new) \<subseteq> set (map lead_id ls)))"
    by blast
  have opb: "one_page_behind (\<lambda>p. safety_page_listings md5 today (w p)) (\<lambda>p. save_ok (w p)) ?ps
       ?a0 ?art (all_leads ?s) (artifact ?s)"
    using D unfolding one_page_behind_def
  proof
    assume "persisted ?a0 ?art (all_leads ?s) (artifact ?s)"
    then show "\<exists>prev new. all_leads ?s = prev @ new \<and> persisted ?a0 ?art prev (artifact ?s) \<and>
        (new = [] \<or> (\<exists>p ls. p \<in> set ?ps \<and> save_ok (w p) = False \<and>
           safety_page_listings md5 today (w p) = Some ls \<and>
           set (map lead_id new) \<subseteq> set (map lead_id ls)))"
      by (intro exI [of _ "all_leads ?s"] exI [of _ "[]"]) simp
  next
    assume "fst ?r \<and>
       (\<exists>p prev new ls. p \<in> set ?ps \<and> save_ok (w p) = False \<and>
          all_leads ?s = prev @ new \<and> persisted ?a0 ?art prev (artifact ?s) \<and>
          safety_page_listings md5 today (w p) = Some ls \<and>
          set (map lead_id new) \<subseteq> set (map lead_id ls))"
    then show "\<exists>prev new. all_leads ?s = prev @ new \<and> persisted ?a0 ?art prev (artifact ?s) \<and>
        (new = [] \<or> (\<exists>p ls. p \<in> set ?ps \<and> save_ok (w p) = False \<and>
           safety_page_listings md5 today (w p) = Some ls \<and>
           set (map lead_id new) \<subseteq> set (map lead_id ls)))"
      by blast
  qed
  from R have e: "e = (if fst ?r then Caught else Completed)"
    and st: "st = ?s\<lparr>trace := trace ?s @ [Quit]\<rparr>"
    by (simp_all add: safety_task_body_def case_prod_beta)
  show ?thesis
  proof (cases "fst ?r")
    case False
    with D have "persisted ?a0 ?art (all_leads ?s) (artifact ?s)" by blast
    with e st opb False show ?thesis by (simp add: session_after_Quit)
  next
    case True
    with e st opb show ?thesis by (simp add: session_after_Quit)
  qed
qed

lemma janitor_reloaded_keep:
  assumes "with_ids (janitor_load_existing md5 rows) = Inr leads"
  shows "list_all (keep (janitor_ops md5 today)) leads"
proof -
  { fix l assume "l \<in> set leads"
    with assms obtain r i where ri: "(r, Some i) \<in> set (janitor_load_existing md5 rows)"
        "l = lead_of_row r i"
      by (rule with_ids_source)
    from ri(1) have "janitor_is_valid_website (cell_text (Website_URL_cell r))"
      by (rule janitor_load_existing_valid)
    with ri(2) have "keep (janitor_ops md5 today) l"
      by (simp add: keep_def janitor_ops_def lead_of_row_def) }
  then show ?thesis by (simp add: list_all_iff)
qed

lemma b2b_reloaded_keep: "list_all (keep (b2b_ops md5 lbl today)) leads"
  by (simp add: keep_def b2b_ops_def list_all_iff)

lemma safety_reloaded_keep:
  assumes "with_ids (safety_load_existing md5 rows) = Inr leads"
  shows "list_all (\<lambda>l. safety_is_valid_website (Website_URL l)) leads"
proof -
  { fix l assume "l \<in> set leads"
    with assms obtain r i where ri: "(r, Some i) \<in> set (safety_load_existing md5 rows)"
        "l = lead_of_row r i"
      by (rule with_ids_source)
    from ri(1) have "safety_is_valid_website (cell_text (Website_URL_cell r))"
      by (rule safety_load_existing_valid)
    with ri(2) have "safety_is_valid_website (Website_URL l)"
      by (simp add: lead_of_row_def) }
  then show ?thesis by (simp add: list_all_iff)
qed

text \<open>A task ends before its \<^verbatim>\<open>try\<close> statement exactly when the reload has left a
  record without its identity.\<close>

lemma scrape_search_Uncaught_iff:
  "fst (scrape_search v w flush_ok existing_ids rows) = Uncaught \<longleftrightarrow>
   with_ids (load_existing v rows) = Inl KeyError"
proof (cases "with_ids (load_existing v rows)")
  case (Inl e)
  then show ?thesis using with_ids_error [OF Inl] by (simp add: scrape_search_def)
next
  case (Inr leads)
  then show ?thesis
    by (auto simp: scrape_search_def task_body_def case_prod_beta split: option.splits)
qed

lemma scrape_Uncaught_iff:
  "fst (scrape md5 today w existing_ids rows) = Uncaught \<longleftrightarrow>
   with_ids (safety_load_existing md5 rows) = Inl KeyError"
proof (cases "with_ids (safety_load_existing md5 rows)")
  case (Inl e)
  then show ?thesis using with_ids_error [OF Inl] by (simp add: scrape_def)
next
  case (Inr leads)
  then show ?thesis
    by (auto simp: scrape_def safety_task_body_def case_prod_beta)
qed

text \<open>
  C8, as the claim states it, fails for the safety variant: its handler only prints the
  error. When the write after the first page raises, the task ends with the accepted lead
  in memory and an artifact without it, and no write is attempted after the exception;
  in the same situation the janitor task writes the lead from its handler.
\<close>

theorem safety_handler_does_not_flush:
  "fst (scrape (\<lambda>k. k) ''1/2/26'' (one_page_world [acme_listing (Some ''https://acme.com'')] False) {} [])
     = Caught \<and>
   map Company_Name (all_leads (snd (scrape (\<lambda>k. k) ''1/2/26''
       (one_page_world [acme_listing (Some ''https://acme.com'')] False) {} []))) = [''Acme Paper''] \<and>
   artifact (snd (scrape (\<lambda>k. k) ''1/2/26''
       (one_page_world [acme_listing (Some ''https://acme.com'')] False) {} [])) = [] \<and>
   trace (snd (scrape (\<lambda>k. k) ''1/2/26''
       (one_page_world [acme_listing (Some ''https://acme.com'')] False) {} []))
     = [Create, Nav 1, Sleep 2, SaveError, Quit] \<and>
   map Company_Name (artifact (snd (scrape_search (janitor_ops (\<lambda>k. k) ''1/2/26'')
       (one_page_world [acme_listing (Some ''https://acme.com'')] False) True {} []))) = [''Acme Paper'']"
  by code_simp

text \<open>
  The session is created before the \<^verbatim>\<open>try\<close> statement, and the statement between the
  two can raise. A record of the artifact with an empty phone cell makes
  \<^verbatim>\<open>generate_lead_id\<close> of the B2B file raise during the reload; the bare \<^verbatim>\<open>except\<close>
  swallows that, the record has no \<^verbatim>\<open>"_lead_id"\<close>, and the \<^verbatim>\<open>KeyError\<close> of the local
  scope leaves the function with the session open. The janitor reload gives the same
  record the identity of \<^verbatim>\<open>"acme paper|nan"\<close> and the task runs. In the janitor and in
  the safety file a record with an empty website cell has the same effect, through
  \<^verbatim>\<open>is_valid_website\<close>.
\<close>

lemma reload_failure_leaves_session_open:
  "scrape_search (b2b_ops (\<lambda>k. k) ''Wholesale'' ''1/2/26'') offline_world True {}
       [acme_row (Str ''https://acme.com'') NaN]
     = (Uncaught, initial_state [] (artifact_rows [acme_row (Str ''https://acme.com'') NaN])) \<and>
   trace (initial_state [] (artifact_rows [acme_row (Str ''https://acme.com'') NaN])) = [Create] \<and>
   session_after False [Create] = True \<and>
   fst (scrape_search (janitor_ops (\<lambda>k. k) ''1/2/26'') offline_world True {}
       [acme_row NaN (Str ''(718) 555-0100'')]) = Uncaught \<and>
   fst (scrape (\<lambda>k. k) ''1/2/26'' offline_world {}
       [acme_row NaN (Str ''(718) 555-0100'')]) = Uncaught \<and>
   fst (scrape_search (janitor_ops (\<lambda>k. k) ''1/2/26'') offline_world True {}
       [acme_row (Str ''https://acme.com'') NaN]) = Completed \<and>
   map lead_id (all_leads (snd (scrape_search (janitor_ops (\<lambda>k. k) ''1/2/26'') offline_world True {}
       [acme_row (Str ''https://acme.com'') NaN]))) = [''acme paper|n'']"
  by code_simp

text \<open>
  C8, amended. In the janitor and B2B variants, when an exception leaves the page loop the
  handler writes the accumulated leads to the artifact (when there are any) before the
  task ends: if that write returns, the artifact holds all of them; if it raises, the
  exception leaves the function. The safety variant's handler only reports the error. In
  every variant, a task whose reload has given every record of the artifact its identity
  enters the \<^verbatim>\<open>try\<close> statement, and then the browser session is closed at the end of
  the task, however the page loop ends, and the leads in memory that the artifact does
  not reflect are at most the new leads of one page, the page whose write raised; after a
  task that ends without exception there are none.
\<close>

theorem exception_flush_and_teardown:
  "((v = janitor_ops md5 today \<or> v = b2b_ops md5 search_label today) \<and>
    with_ids (load_existing v rows) = Inr leads0 \<and>
    scrape_search v w flush_ok existing_ids rows = (e, st)
      \<longrightarrow> session_after False (trace st) = False \<and>
          e \<noteq> Uncaught \<and>
          (e = Caught \<longrightarrow> artifact st = all_leads st \<or> all_leads st = []) \<and>
          (e = Escaped \<longrightarrow> flush_ok = False) \<and>
          (e = Completed \<longrightarrow> persisted leads0 (artifact_rows rows) (all_leads st) (artifact st)) \<and>
          one_page_behind (\<lambda>p. page_listings v (w p) p) (\<lambda>p. save_ok (w p))
            [1..<Suc (MAX_PAGES v)]
            leads0 (artifact_rows rows) (all_leads st) (artifact st)) \<and>
   (with_ids (safety_load_existing md5 rows) = Inr existing \<and>
    scrape md5 today w existing_ids rows = (e', st')
      \<longrightarrow> session_after False (trace st') = False \<and>
          (e' = Completed \<or> e' = Caught) \<and>
          (e' = Completed \<longrightarrow> persisted existing (artifact_rows rows) (all_leads st') (artifact st')) \<and>
          one_page_behind (\<lambda>p. safety_page_listings md5 today (w p)) (\<lambda>p. save_ok (w p))
            [1..<Suc SAFETY_MAX_PAGES]
            existing (artifact_rows rows) (all_leads st') (artifact st'))"
proof (intro conjI impI)
  assume a: "(v = janitor_ops md5 today \<or> v = b2b_ops md5 search_label today) \<and>
    with_ids (load_existing v rows) = Inr leads0 \<and>
    scrape_search v w flush_ok existing_ids rows = (e, st)"
  let ?st0 = "initial_state leads0 (artifact_rows rows)"
  from a have A1: "\<And>l ld. parse v l = Some ld \<Longrightarrow> keep v ld"
    using janitor_parse_keep b2b_parse_keep by blast
  from a have L: "with_ids (load_existing v rows) = Inr leads0" by simp
  with a have R: "task_body v w flush_ok existing_ids ?st0 = (e, st)"
    by (simp add: scrape_search_def)
  have "list_all (keep v) leads0"
  proof -
    from a consider "v = janitor_ops md5 today" | "v = b2b_ops md5 search_label today" by blast
    then show ?thesis
    proof cases
      case 1
      with L have "with_ids (janitor_load_existing md5 rows) = Inr leads0"
        by (simp add: janitor_ops_def)
      then have "list_all (keep (janitor_ops md5 today)) leads0" by (rule janitor_reloaded_keep)
      with 1 show ?thesis by simp
    next
      case 2
      then show ?thesis by (simp add: b2b_reloaded_keep)
    qed
  qed
  then have K0: "list_all (keep v) (all_leads ?st0)" by (simp add: initial_state_def)
  have a0: "all_leads ?st0 = leads0" "artifact ?st0 = artifact_rows rows"
    by (simp_all add: initial_state_def)
  note r = task_body_persist [of v ?st0 w flush_ok existing_ids e st, OF _ K0 R, unfolded a0]
  from r A1 show "session_after False (trace st) = False" by blast
  from r A1 show "e \<noteq> Uncaught" by blast
  from r A1 show "e = Caught \<Longrightarrow> artifact st = all_leads st \<or> all_leads st = []" by blast
  from r A1 show "e = Escaped \<Longrightarrow> flush_ok = False" by blast
  from r A1 show "e = Completed \<Longrightarrow>
      persisted leads0 (artifact_rows rows) (all_leads st) (artifact st)" by blast
  from r A1 show "one_page_behind (\<lambda>p. page_listings v (w p) p) (\<lambda>p. save_ok (w p))
            [1..<Suc (MAX_PAGES v)]
            leads0 (artifact_rows rows) (all_leads st) (artifact st)" by blast
next
  assume a: "with_ids (safety_load_existing md5 rows) = Inr existing \<and>
    scrape md5 today w existing_ids rows = (e', st')"
  let ?st0 = "initial_state existing (artifact_rows rows)"
  from a have L: "with_ids (safety_load_existing md5 rows) = Inr existing" by simp
  with a have R: "safety_task_body md5 today w existing_ids ?st0 = (e', st')"
    by (simp add: scrape_def)
  from L have "list_all (\<lambda>l. safety_is_valid_website (Website_URL l)) existing"
    by (rule safety_reloaded_keep)
  then have K0: "list_all (\<lambda>l. safety_is_valid_website (Website_URL l)) (all_leads ?st0)"
    by (simp add: initial_state_def)
  have a0: "all_leads ?st0 = existing" "artifact ?st0 = artifact_rows rows"
    by (simp_all add: initial_state_def)
  note r = safety_task_body_persist [OF K0 R, unfolded a0]
  from r show "session_after False (trace st') = False" by blast
  from r show "e' = Completed \<or> e' = Caught" by blast
  from r show "e' = Completed \<Longrightarrow>
      persisted existing (artifact_rows rows) (all_leads st') (artifact st')"
    by blast
  from r show "one_page_behind (\<lambda>p. safety_page_listings md5 today (w p)) (\<lambda>p. save_ok (w p))
            [1..<Suc SAFETY_MAX_PAGES]
            existing (artifact_rows rows) (all_leads st') (artifact st')"
    by blast
qed

theorem exception_flush_and_teardown_witness:
  "fst (scrape_search (janitor_ops (\<lambda>k. k) ''1/2/26'')
          (one_page_world [acme_listing (Some ''https://acme.com'')] False) True {}
          [acme_row (Str ''https://acme.com'') NaN]) = Caught \<and>
   artifact (snd (scrape_search (janitor_ops (\<lambda>k. k) ''1/2/26'')
          (one_page_world [acme_listing (Some ''https://acme.com'')] False) True {}
          [acme_row (Str ''https://acme.com'') NaN]))
     = all_leads (snd (scrape_search (janitor_ops (\<lambda>k. k) ''1/2/26'')
          (one_page_world [acme_listing (Some ''https://acme.com'')] False) True {}
          [acme_row (Str ''https://acme.com'') NaN])) \<and>
   map lead_id (all_leads (snd (scrape_search (janitor_ops (\<lambda>k. k) ''1/2/26'')
          (one_page_world [acme_listing (Some ''https://acme.com'')] False) True {}
          [acme_row (Str ''https://acme.com'') NaN]))) = [''acme paper|n'', ''acme paper|(''] \<and>
   session_after False (trace (snd (scrape_search (janitor_ops (\<lambda>k. k) ''1/2/26'')
          (one_page_world [acme_listing (Some ''https://acme.com'')] False) True {}
          [acme_row (Str ''https://acme.com'') NaN]))) = False \<and>
   session_after False (trace (snd (scrape (\<lambda>k. k) ''1/2/26''
          (one_page_world [acme_listing (Some ''https://acme.com'')] False) {}
          [acme_row (Str ''https://acme.com'') NaN]))) = False"
proof -
  let ?J = "janitor_ops (\<lambda>k. k) ''1/2/26''"
  let ?W = "one_page_world [acme_listing (Some ''https://acme.com'')] False"
  let ?rows = "[acme_row (Str ''https://acme.com'') NaN]"
  let ?R = "scrape_search ?J ?W True {} ?rows"
  let ?S = "scrape (\<lambda>k. k) ''1/2/26'' ?W {} ?rows"
  have p: "?R = (fst ?R, snd ?R)" "?S = (fst ?S, snd ?S)" by simp_all
  have t: "list_all (\<lambda>r. \<exists>s. Website_URL_cell r = Str s) ?rows" by (simp add: acme_row_def)
  obtain leads0 where l0: "with_ids (load_existing ?J ?rows) = Inr leads0"
    using janitor_reload_total [OF t, of "\<lambda>k. k"] by (auto simp: janitor_ops_def)
  obtain existing where l1: "with_ids (safety_load_existing (\<lambda>k. k) ?rows) = Inr existing"
    using safety_reload_total [OF t, of "\<lambda>k. k"] by blast
  have c: "fst ?R = Caught" by code_simp
  have i: "map lead_id (all_leads (snd ?R)) = [''acme paper|n'', ''acme paper|('']" by code_simp
  then have n: "all_leads (snd ?R) \<noteq> []" by auto
  from exception_flush_and_teardown
         [of ?J "\<lambda>k. k" "''1/2/26''" _ ?rows leads0 ?W True "{}" "fst ?R" "snd ?R"
             existing "fst ?S" "snd ?S"] p c n l0 l1 i
  show ?thesis by simp
qed

end
